theory Spec2Isabelle
  imports Complex_Main
begin

section \<open>Python strings\<close>

text \<open>
  A Python \<open>str\<close> is modelled as a \<open>string\<close>: a list of characters whose code
  points lie below 256.  On this range \<open>str.isspace\<close> (used by \<open>strip()\<close>,
  \<open>split()\<close> and the regular expression class \<open>\s\<close>) holds for the code
  points 9-13, 28-32, 133 and 160; \<open>\d\<close> is exactly \<open>0-9\<close>; and
  \<open>[A-Za-z]\<close> under \<open>re.IGNORECASE\<close> is exactly the ASCII letters.
\<close>

definition code :: "char \<Rightarrow> nat" where
  "code c = of_char c"

definition isspace :: "char \<Rightarrow> bool" where
  "isspace c = ((9 \<le> code c \<and> code c \<le> 13) \<or> (28 \<le> code c \<and> code c \<le> 32)
                 \<or> code c = 133 \<or> code c = 160)"

definition isdigit :: "char \<Rightarrow> bool" where
  "isdigit c = (48 \<le> code c \<and> code c \<le> 57)"

definition isletter :: "char \<Rightarrow> bool" where
  "isletter c = ((65 \<le> code c \<and> code c \<le> 90) \<or> (97 \<le> code c \<and> code c \<le> 122))"

text \<open>\<open>str.lower()\<close>: the upper-case letters below 256 are A-Z and the code points
  192-222 except 215; each is 32 below its lower-case form.\<close>

definition lower_char :: "char \<Rightarrow> char" where
  "lower_char c =
     (if (65 \<le> code c \<and> code c \<le> 90) \<or> (192 \<le> code c \<and> code c \<le> 222 \<and> code c \<noteq> 215)
      then char_of (code c + 32) else c)"

definition lower :: "string \<Rightarrow> string" where
  "lower s = map lower_char s"

definition lstrip :: "string \<Rightarrow> string" where
  "lstrip s = dropWhile isspace s"

definition rstrip :: "string \<Rightarrow> string" where
  "rstrip s = rev (dropWhile isspace (rev s))"

definition strip :: "string \<Rightarrow> string" where
  "strip s = rstrip (lstrip s)"

text \<open>\<open>s.replace(a, b)\<close> for single characters.\<close>

definition replace :: "char \<Rightarrow> char \<Rightarrow> string \<Rightarrow> string" where
  "replace a b s = map (\<lambda>c. if c = a then b else c) s"

text \<open>\<open>s.split(sep)\<close> with an explicit one-character separator: empty pieces are
  kept, and the empty string gives one empty piece.\<close>

fun split_acc :: "char \<Rightarrow> string \<Rightarrow> string \<Rightarrow> string list" where
  "split_acc sep acc [] = [rev acc]"
| "split_acc sep acc (c # cs) =
     (if c = sep then rev acc # split_acc sep [] cs else split_acc sep (c # acc) cs)"

definition split_on :: "char \<Rightarrow> string \<Rightarrow> string list" where
  "split_on sep s = split_acc sep [] s"

text \<open>\<open>s.split()\<close> with no separator: runs of whitespace separate the words and
  no empty word is produced.\<close>

fun words_acc :: "string \<Rightarrow> string \<Rightarrow> string list" where
  "words_acc acc [] = (if acc = [] then [] else [rev acc])"
| "words_acc acc (c # cs) =
     (if isspace c then (if acc = [] then words_acc [] cs else rev acc # words_acc [] cs)
      else words_acc (c # acc) cs)"

definition split_ws :: "string \<Rightarrow> string list" where
  "split_ws s = words_acc [] s"

text \<open>\<open>s.startswith(k)\<close> and the substring test \<open>k in s\<close>.\<close>

fun startswith :: "string \<Rightarrow> string \<Rightarrow> bool" where
  "startswith s [] = True"
| "startswith [] (k # ks) = False"
| "startswith (c # cs) (k # ks) = (c = k \<and> startswith cs ks)"

fun contains :: "string \<Rightarrow> string \<Rightarrow> bool" where
  "contains [] k = (k = [])"
| "contains (c # cs) k = (startswith (c # cs) k \<or> contains cs k)"

section \<open>The regular expressions of the parser\<close>

text \<open>
  Every pattern of \<open>parse_expense_data\<close> is a sequence of greedy repetitions of a
  character class: \<open>Rep cls lo hi\<close> stands for \<open>cls{lo,hi}\<close>, with \<open>hi = None\<close> for
  an unbounded repetition.  A single character is a repetition with \<open>lo = hi = 1\<close>.
\<close>

datatype item = Rep "char \<Rightarrow> bool" nat "nat option"

type_synonym pattern = "item list"

text \<open>The number of characters a greedy repetition takes first.\<close>

definition greedy :: "(char \<Rightarrow> bool) \<Rightarrow> nat option \<Rightarrow> string \<Rightarrow> nat" where
  "greedy cls hi s =
     (let n = length (takeWhile cls s) in case hi of None \<Rightarrow> n | Some h \<Rightarrow> min n h)"

text \<open>\<open>first_some f ks\<close> is the result of the first \<open>k\<close> of \<open>ks\<close> on which \<open>f\<close>
  succeeds.\<close>

fun first_some :: "('a \<Rightarrow> 'b option) \<Rightarrow> 'a list \<Rightarrow> 'b option" where
  "first_some f [] = None"
| "first_some f (k # ks) = (case f k of Some r \<Rightarrow> Some r | None \<Rightarrow> first_some f ks)"

lemma first_some_cong [fundef_cong]:
  "ks = ks' \<Longrightarrow> (\<And>k. k \<in> set ks' \<Longrightarrow> f k = g k) \<Longrightarrow> first_some f ks = first_some g ks'"
  by (induction ks arbitrary: ks') (auto split: option.splits)

text \<open>
  The backtracking matcher: \<open>match_here p s\<close> matches \<open>p\<close> at the start of \<open>s\<close> and
  returns what is left of \<open>s\<close> behind the match.  A repetition takes as many characters
  as it can and gives them back one at a time, down to its lower bound, until the rest of
  the pattern matches.
\<close>

fun match_here :: "pattern \<Rightarrow> string \<Rightarrow> string option" where
  "match_here [] s = Some s"
| "match_here (Rep cls lo hi # p) s =
     first_some (\<lambda>k. match_here p (drop k s)) (rev [lo ..< Suc (greedy cls hi s)])"

text \<open>\<open>re.match(p, s)\<close> as a truth value.\<close>

definition re_match :: "pattern \<Rightarrow> string \<Rightarrow> bool" where
  "re_match p s = (match_here p s \<noteq> None)"

text \<open>The text of a match that starts \<open>s\<close> and leaves \<open>r\<close>.\<close>

definition matched :: "string \<Rightarrow> string \<Rightarrow> string" where
  "matched s r = take (length s - length r) s"

text \<open>\<open>re.search(p, s)\<close>: the match at the leftmost position that has one, as
  \<open>match.group(0)\<close>.\<close>

fun re_search :: "pattern \<Rightarrow> string \<Rightarrow> string option" where
  "re_search p [] = (case match_here p [] of Some r \<Rightarrow> Some [] | None \<Rightarrow> None)"
| "re_search p (c # cs) =
     (case match_here p (c # cs) of Some r \<Rightarrow> Some (matched (c # cs) r)
      | None \<Rightarrow> re_search p cs)"

text \<open>\<open>re.findall(p, s)\<close> for a pattern whose only group is the whole pattern: the
  matches from left to right, each search starting where the last match ended (one
  character further after an empty match).\<close>

function findall :: "pattern \<Rightarrow> string \<Rightarrow> string list" where
  "findall p [] = (case match_here p [] of Some r \<Rightarrow> [[]] | None \<Rightarrow> [])"
| "findall p (c # cs) =
     (case match_here p (c # cs) of
        None \<Rightarrow> findall p cs
      | Some r \<Rightarrow>
          (if length r < length (c # cs) then matched (c # cs) r # findall p r
           else [] # findall p cs))"
  by pat_completeness auto
termination
  by (relation "measure (\<lambda>(p, s). length s)") auto

text \<open>Building blocks: one character, an optional character.\<close>

definition lit :: "char \<Rightarrow> item" where
  "lit c = Rep (\<lambda>x. x = c) 1 (Some 1)"

definition opt :: "char \<Rightarrow> item" where
  "opt c = Rep (\<lambda>x. x = c) 0 (Some 1)"

text \<open>\<open>\d+\.\d{2}\<close>\<close>

definition amount_pattern :: pattern where
  "amount_pattern = [Rep isdigit 1 None, lit CHR ''.'', Rep isdigit 2 (Some 2)]"

text \<open>\<open>\d{4}-\d{2}-\d{2}\<close>\<close>

definition iso_pattern :: pattern where
  "iso_pattern =
     [Rep isdigit 4 (Some 4), lit CHR ''-'', Rep isdigit 2 (Some 2), lit CHR ''-'',
      Rep isdigit 2 (Some 2)]"

text \<open>\<open>\d{1,2}/\d{1,2}/\d{2,4}\<close>\<close>

definition slash_pattern :: pattern where
  "slash_pattern =
     [Rep isdigit 1 (Some 2), lit CHR ''/'', Rep isdigit 1 (Some 2), lit CHR ''/'',
      Rep isdigit 2 (Some 4)]"

text \<open>\<open>\d{1,2}-\d{1,2}-\d{2,4}\<close>\<close>

definition hyphen_pattern :: pattern where
  "hyphen_pattern =
     [Rep isdigit 1 (Some 2), lit CHR ''-'', Rep isdigit 1 (Some 2), lit CHR ''-'',
      Rep isdigit 2 (Some 4)]"

text \<open>\<open>[A-Za-z]{3,9}\s+\d{1,2},?\s+\d{2,4}\<close>\<close>

definition month_pattern :: pattern where
  "month_pattern =
     [Rep isletter 3 (Some 9), Rep isspace 1 None, Rep isdigit 1 (Some 2), opt CHR '','',
      Rep isspace 1 None, Rep isdigit 2 (Some 4)]"

definition date_patterns :: "pattern list" where
  "date_patterns = [iso_pattern, slash_pattern, hyphen_pattern, month_pattern]"

text \<open>The two alternatives of \<open>^((\$?\d+\.?\d*)|(\d{1,2}[/-]\d{1,2}))\<close>.\<close>

definition numeric_prefix :: "pattern list" where
  "numeric_prefix =
     [[opt CHR ''$'', Rep isdigit 1 None, opt CHR ''.'', Rep isdigit 0 None],
      [Rep isdigit 1 (Some 2), Rep (\<lambda>c. c = CHR ''/'' \<or> c = CHR ''-'') 1 (Some 1),
       Rep isdigit 1 (Some 2)]]"

text \<open>\<open>re.match\<close> of an alternation: some alternative matches at the start.\<close>

definition re_match_alt :: "pattern list \<Rightarrow> string \<Rightarrow> bool" where
  "re_match_alt ps s = list_ex (\<lambda>p. re_match p s) ps"

section \<open>Numbers and dates\<close>

datatype py_error = ValueError | KeyError string | ServiceError string

text \<open>
  \<open>float(s)\<close> on a plain decimal literal (digits, a point, digits).  The amount is kept
  as the exact decimal value the literal denotes; Python rounds it to the nearest double,
  a monotone map that fixes 0, so order and sign are those of the exact values.  Python
  accepts further forms (signs, exponents, blanks); in the model they are a
  \<open>ValueError\<close>.
\<close>

definition digit_val :: "char \<Rightarrow> nat" where
  "digit_val c = code c - 48"

definition nat_of_digits :: "string \<Rightarrow> nat" where
  "nat_of_digits s = foldl (\<lambda>a c. 10 * a + digit_val c) 0 s"

definition py_float :: "string \<Rightarrow> py_error + rat" where
  "py_float s =
     (let ip = takeWhile isdigit s; r = dropWhile isdigit s in
      case r of
        [] \<Rightarrow> (if ip = [] then Inl ValueError else Inr (of_nat (nat_of_digits ip)))
      | c # fp \<Rightarrow>
          (if c = CHR ''.'' \<and> list_all isdigit fp \<and> ip @ fp \<noteq> []
           then Inr (of_nat (nat_of_digits ip) + of_nat (nat_of_digits fp) / 10 ^ length fp)
           else Inl ValueError))"

text \<open>The list comprehension \<open>[float(s) for s in ...]\<close>: the first error ends it.\<close>

fun float_all :: "string list \<Rightarrow> py_error + rat list" where
  "float_all [] = Inr []"
| "float_all (s # ss) =
     (case py_float s of
        Inl e \<Rightarrow> Inl e
      | Inr x \<Rightarrow> (case float_all ss of Inl e \<Rightarrow> Inl e | Inr xs \<Rightarrow> Inr (x # xs)))"

text \<open>\<open>np.max\<close> of a list: a \<open>ValueError\<close> on the empty list.\<close>

fun np_max :: "rat list \<Rightarrow> py_error + rat" where
  "np_max [] = Inl ValueError"
| "np_max (x # xs) = Inr (fold max xs x)"

text \<open>
  A calendar date, as \<open>datetime.now()\<close> and a pandas \<open>Timestamp\<close> carry it (the time
  of day does not reach the format \<open>%Y-%m-%d\<close>).
\<close>

record datetime =
  year :: nat
  month :: nat
  day :: nat

definition digit_char :: "nat \<Rightarrow> char" where
  "digit_char d = char_of (48 + d)"

text \<open>The decimal digits of \<open>n\<close> on \<open>w\<close> places, zero filled.\<close>

definition zero_pad :: "nat \<Rightarrow> nat \<Rightarrow> string" where
  "zero_pad w n = map (\<lambda>i. digit_char (n div 10 ^ i mod 10)) (rev [0 ..< w])"

text \<open>\<open>str(n)\<close> of a number: its decimal digits, with no leading zero.\<close>

fun decimal :: "nat \<Rightarrow> string" where
  "decimal n = (if n < 10 then [digit_char n] else decimal (n div 10) @ [digit_char (n mod 10)])"

declare decimal.simps [simp del]

text \<open>
  \<open>strftime('%Y-%m-%d')\<close> of a \<open>datetime\<close>, whose years are 1 to 9999.  The C
  library of the platform prints \<open>%Y\<close>; glibc prints the year in decimal with no
  leading zero, so a year below 1000 has fewer than four digits.  \<open>%m\<close> and \<open>%d\<close>
  have two digits.
\<close>

definition strftime :: "datetime \<Rightarrow> string" where
  "strftime d = decimal (year d) @ ''-'' @ zero_pad 2 (month d) @ ''-'' @ zero_pad 2 (day d)"

definition is_leap :: "nat \<Rightarrow> bool" where
  "is_leap y = (y mod 4 = 0 \<and> (y mod 100 \<noteq> 0 \<or> y mod 400 = 0))"

definition days_in_month :: "nat \<Rightarrow> nat \<Rightarrow> nat" where
  "days_in_month y m =
     (if m = 2 then (if is_leap y then 29 else 28)
      else if m = 4 \<or> m = 6 \<or> m = 9 \<or> m = 11 then 30 else 31)"

text \<open>A day of the calendar with a four-digit year.\<close>

definition valid_date :: "datetime \<Rightarrow> bool" where
  "valid_date d =
     (1000 \<le> year d \<and> year d \<le> 9999 \<and> 1 \<le> month d \<and> month d \<le> 12 \<and> 1 \<le> day d
      \<and> day d \<le> days_in_month (year d) (month d))"

text \<open>A valid ISO calendar date string: ten characters \<open>YYYY-MM-DD\<close>, digits around
  the two hyphens, a month from 1 to 12 and a day that month has in that year.\<close>

definition iso_date_string :: "string \<Rightarrow> bool" where
  "iso_date_string s =
     (length s = 10 \<and> list_all isdigit (take 4 s) \<and> take 1 (drop 4 s) = ''-''
      \<and> list_all isdigit (take 2 (drop 5 s)) \<and> take 1 (drop 7 s) = ''-''
      \<and> list_all isdigit (drop 8 s)
      \<and> 1 \<le> nat_of_digits (take 2 (drop 5 s)) \<and> nat_of_digits (take 2 (drop 5 s)) \<le> 12
      \<and> 1 \<le> nat_of_digits (drop 8 s)
      \<and> nat_of_digits (drop 8 s)
          \<le> days_in_month (nat_of_digits (take 4 s)) (nat_of_digits (take 2 (drop 5 s))))"

text \<open>
  \<open>pd.to_datetime(s, errors='coerce')\<close> is a parameter of the model: it raises, or
  returns \<open>NaT\<close>, or returns a \<open>Timestamp\<close>.  A \<open>Timestamp\<close> can lie outside the
  years 1 to 9999 of a \<open>datetime\<close> (a year before 1 is the year 0 here).
\<close>

datatype timestamp = Timestamp datetime | NaT

type_synonym to_datetime = "string \<Rightarrow> py_error + timestamp"

text \<open>
  \<open>t.strftime('%Y-%m-%d')\<close> of what the parser returned: \<open>NaT.strftime\<close> raises,
  \<open>Timestamp.strftime\<close> raises for a year outside 1 to 9999 and formats as a
  \<open>datetime\<close> does otherwise.  What is raised only matters as an exception: the bare
  \<open>except\<close> catches it.
\<close>

definition ts_strftime :: "timestamp \<Rightarrow> py_error + string" where
  "ts_strftime t =
     (case t of
        Timestamp d \<Rightarrow>
          (if 1 \<le> year d \<and> year d \<le> 9999 then Inr (strftime d) else Inl ValueError)
      | NaT \<Rightarrow> Inl ValueError)"

section \<open>parse\_expense\_data\<close>

record expense_data =
  amount :: rat
  date :: string
  vendor :: string
  description :: string

text \<open>The loop over \<open>date_patterns\<close>: the first pattern that \<open>re.search\<close> finds
  in the text gives \<open>date_found\<close>, and the loop ends there.\<close>

fun first_match :: "pattern list \<Rightarrow> string \<Rightarrow> string option" where
  "first_match [] s = None"
| "first_match (p # ps) s =
     (case re_search p s of Some m \<Rightarrow> Some m | None \<Rightarrow> first_match ps s)"

definition date_found :: "string \<Rightarrow> string option" where
  "date_found s = first_match date_patterns s"

text \<open>
  \<open>date_parsed\<close>: the clock's date first; replaced when \<open>date_found\<close> is a non-empty
  string and both the parser and \<open>strftime\<close> return.  The bare \<open>except\<close> leaves the
  clock's date in place.
\<close>

definition date_parsed :: "datetime \<Rightarrow> to_datetime \<Rightarrow> string option \<Rightarrow> string" where
  "date_parsed now to_dt found =
     (case found of
        None \<Rightarrow> strftime now
      | Some m \<Rightarrow>
          (if m = [] then strftime now
           else (case to_dt m of
                   Inl e \<Rightarrow> strftime now
                 | Inr t \<Rightarrow> (case ts_strftime t of Inl e \<Rightarrow> strftime now | Inr s \<Rightarrow> s))))"

text \<open>The loop over the lines that sets \<open>vendor\<close>.\<close>

fun vendor_loop :: "string list \<Rightarrow> string" where
  "vendor_loop [] = ''Unknown''"
| "vendor_loop (l # ls) =
     (let line = strip l in
      if \<not> re_match_alt numeric_prefix line then
        (if length line > 3 \<and> \<not> contains (lower line) ''receipt''
            \<and> \<not> contains (lower line) ''tax''
         then (case split_ws line of [] \<Rightarrow> vendor_loop ls | w # ws \<Rightarrow> w)
         else vendor_loop ls)
      else vendor_loop ls)"

text \<open>
  \<open>parse_expense_data\<close>: the clock's date \<open>now\<close> and the date parser
  \<open>to_dt\<close> are its environment.  The line of dots between the vendor loop and the
  \<open>return\<close> of the source is no statement and has no counterpart here.
\<close>

definition parse_expense_data :: "datetime \<Rightarrow> to_datetime \<Rightarrow> string \<Rightarrow> py_error + expense_data" where
  "parse_expense_data now to_dt text =
     (case float_all (findall amount_pattern (replace CHR '','' CHR ''.'' text)) of
        Inl e \<Rightarrow> Inl e
      | Inr amounts \<Rightarrow>
          (case (if amounts \<noteq> [] then np_max amounts else Inr 0) of
             Inl e \<Rightarrow> Inl e
           | Inr total_amount \<Rightarrow>
               Inr \<lparr>amount = total_amount,
                    date = date_parsed now to_dt (date_found text),
                    vendor = vendor_loop (split_on (CHR 0x0A) (strip text)),
                    description = take 200 (strip text)\<rparr>))"

section \<open>categorize\_expense\<close>

text \<open>The dictionary \<open>EXPENSE_CATEGORIES\<close>, in the order of its literal (the order in
  which \<open>items()\<close> yields it).\<close>

definition EXPENSE_CATEGORIES :: "(string \<times> string list) list" where
  "EXPENSE_CATEGORIES =
     [(''food'', [''restaurant'', ''cafe'', ''pizza'', ''burger'', ''coffee'', ''grocery'',
                  ''supermarket'', ''fresh foods'']),
      (''transportation'', [''uber'', ''lyft'', ''taxi'', ''gas'', ''fuel'', ''parking'', ''metro'']),
      (''shopping'', [''amazon'', ''walmart'', ''target'', ''mall'', ''store'', ''shop'']),
      (''utilities'', [''electric'', ''water'', ''internet'', ''phone'', ''cable'']),
      (''entertainment'', [''movie'', ''theater'', ''netflix'', ''spotify'', ''game'']),
      (''healthcare'', [''pharmacy'', ''doctor'', ''hospital'', ''clinic'', ''medical'']),
      (''other'', [])]"

fun categorize_loop :: "(string \<times> string list) list \<Rightarrow> string \<Rightarrow> string" where
  "categorize_loop [] s = ''other''"
| "categorize_loop ((category, keywords) # rest) s =
     (if list_ex (\<lambda>keyword. contains s keyword) keywords then category
      else categorize_loop rest s)"

definition categorize_expense :: "string \<Rightarrow> string \<Rightarrow> string" where
  "categorize_expense v d = categorize_loop EXPENSE_CATEGORIES (lower (v @ '' '' @ d))"

section \<open>Export and upload handling\<close>

text \<open>A dictionary \<open>Dict[str, Any]\<close> of strings and numbers; \<open>d[k]\<close> raises a
  \<open>KeyError\<close> on a missing key.\<close>

datatype pyval = Str string | Float rat

type_synonym pydict = "string \<rightharpoonup> pyval"

definition getitem :: "pydict \<Rightarrow> string \<Rightarrow> py_error + pyval" where
  "getitem d k = (case d k of None \<Rightarrow> Inl (KeyError k) | Some v \<Rightarrow> Inr v)"

text \<open>The arguments of \<open>service.spreadsheets().values().append(...)\<close>.\<close>

record append_request =
  spreadsheetId :: string
  range_name :: string
  valueInputOption :: string
  insertDataOption :: string
  body_values :: "pyval list list"

text \<open>
  The spreadsheet service is a parameter of the model:
  \<open>get_google_sheets_service()\<close> raises or returns a service, and a service's
  \<open>append(...).execute()\<close> raises or returns.  What they raise are exceptions derived
  from \<open>Exception\<close>, the ones \<open>except Exception\<close> catches.
\<close>

type_synonym service = "append_request \<Rightarrow> py_error + unit"

text \<open>What the user and the collaborators see of a run, in order: the calls to the two
  parsing functions, the row inserted into the table \<open>expenses\<close>, the request a service
  executed, and the messages on the page.\<close>

record db_row =
  row_date :: string
  row_amount :: rat
  row_vendor :: string
  row_category :: string
  row_raw_text :: string
  row_filename :: string

datatype event =
    Call_parse_expense_data string
  | Call_categorize_expense string string
  | Db_insert db_row
  | Sheets_append append_request
  | St_warning string
  | St_success string
  | St_error string
  | St_write string string rat string

text \<open>\<open>str(e)\<close> of an exception.\<close>

fun exc_str :: "py_error \<Rightarrow> string" where
  "exc_str ValueError = []"
| "exc_str (KeyError k) = [CHR 0x27] @ k @ [CHR 0x27]"
| "exc_str (ServiceError m) = m"

text \<open>The body of the \<open>try\<close> of \<open>export_to_google_sheets\<close>: the service first, then
  the row from the four keys, then the request; it returns the request it executed.\<close>

definition export_try :: "py_error + service \<Rightarrow> pydict \<Rightarrow> string \<Rightarrow> py_error + append_request" where
  "export_try get_google_sheets_service expense_data spreadsheet_id =
     (case get_google_sheets_service of
        Inl e \<Rightarrow> Inl e
      | Inr service \<Rightarrow>
     (case getitem expense_data ''date'' of
        Inl e \<Rightarrow> Inl e
      | Inr d \<Rightarrow>
     (case getitem expense_data ''amount'' of
        Inl e \<Rightarrow> Inl e
      | Inr a \<Rightarrow>
     (case getitem expense_data ''vendor'' of
        Inl e \<Rightarrow> Inl e
      | Inr v \<Rightarrow>
     (case getitem expense_data ''category'' of
        Inl e \<Rightarrow> Inl e
      | Inr c \<Rightarrow>
          (let request = \<lparr>spreadsheetId = spreadsheet_id, range_name = ''Sheet1'',
                          valueInputOption = ''USER_ENTERED'',
                          insertDataOption = ''INSERT_ROWS'', body_values = [[d, a, v, c]]\<rparr>
           in case service request of Inl e \<Rightarrow> Inl e | Inr u \<Rightarrow> Inr request))))))"

text \<open>\<open>export_to_google_sheets\<close>: the value returned and the events of the call.\<close>

definition export_to_google_sheets ::
  "py_error + service \<Rightarrow> pydict \<Rightarrow> string \<Rightarrow> bool \<times> event list" where
  "export_to_google_sheets get_google_sheets_service expense_data spreadsheet_id =
     (case export_try get_google_sheets_service expense_data spreadsheet_id of
        Inr request \<Rightarrow> (True, [Sheets_append request])
      | Inl e \<Rightarrow> (False, [St_error (''Error exporting to Google Sheets: '' @ exc_str e)]))"

text \<open>The dictionary \<open>parse_expense_data\<close> returns, and \<open>d | {'category': c}\<close>.\<close>

definition as_dict :: "expense_data \<Rightarrow> pydict" where
  "as_dict e =
     [''amount'' \<mapsto> Float (amount e), ''date'' \<mapsto> Str (date e), ''vendor'' \<mapsto> Str (vendor e),
      ''description'' \<mapsto> Str (description e)]"

text \<open>
  The upload block, from the OCR text on: \<open>raw_text\<close> is what the OCR function returned
  for the file, \<open>clicked\<close> is what \<open>st.button\<close> returned.  The table is taken to accept
  the row.
\<close>

definition process_upload ::
  "datetime \<Rightarrow> to_datetime \<Rightarrow> bool \<Rightarrow> py_error + service \<Rightarrow> string \<Rightarrow> string
     \<Rightarrow> py_error + event list" where
  "process_upload now to_dt clicked get_google_sheets_service raw_text filename =
     (if strip raw_text = [] then
        Inr [St_warning ''No text detected. Try a clearer image or PDF.'']
      else
        (case parse_expense_data now to_dt raw_text of
           Inl e \<Rightarrow> Inl e
         | Inr expense_data \<Rightarrow>
             (let category = categorize_expense (vendor expense_data) (description expense_data)
              in Inr ([Call_parse_expense_data raw_text,
                       Call_categorize_expense (vendor expense_data) (description expense_data),
                       Db_insert \<lparr>row_date = date expense_data, row_amount = amount expense_data,
                                  row_vendor = vendor expense_data, row_category = category,
                                  row_raw_text = raw_text, row_filename = filename\<rparr>,
                       St_success ''Receipt processed and stored successfully!'',
                       St_write (vendor expense_data) (date expense_data) (amount expense_data)
                         category]
                      @ (if clicked then
                           (case export_to_google_sheets get_google_sheets_service
                                   ((as_dict expense_data)(''category'' \<mapsto> Str category))
                                   ''YOUR_SPREADSHEET_ID_HERE'' of
                              (True, evs) \<Rightarrow> evs @ [St_success ''Expense exported to Google Sheets!'']
                            | (False, evs) \<Rightarrow> evs @ [St_error ''Failed to export to Google Sheets.''])
                         else [])))))"

section \<open>Notions the properties are stated in\<close>

text \<open>\<open>k\<close> is a substring of \<open>s\<close>.\<close>

definition substring :: "string \<Rightarrow> string \<Rightarrow> bool" where
  "substring k s = (\<exists>pre post. s = pre @ k @ post)"

text \<open>An entry of the taxonomy is hit by a text when one of its keywords is a substring
  of the text.\<close>

definition hit :: "string \<Rightarrow> string \<times> string list \<Rightarrow> bool" where
  "hit s entry = (\<exists>k \<in> set (snd entry). substring k s)"

text \<open>
  The words a pattern denotes, without any matching strategy: \<open>lang p w\<close> holds when
  \<open>w\<close> splits into consecutive pieces, one for each repetition of \<open>p\<close>, each piece
  within the bounds of its repetition and made of characters of its class.
\<close>

fun below :: "nat \<Rightarrow> nat option \<Rightarrow> bool" where
  "below k None = True"
| "below k (Some h) = (k \<le> h)"

fun lang :: "pattern \<Rightarrow> string \<Rightarrow> bool" where
  "lang [] w = (w = [])"
| "lang (Rep cls lo hi # p) w =
     (\<exists>k \<in> {lo .. length w}. below k hi \<and> list_all cls (take k w) \<and> lang p (drop k w))"

text \<open>A word of shape \<open>P\<close> starts at position \<open>i\<close> of \<open>s\<close>.\<close>

definition occurs_at :: "(string \<Rightarrow> bool) \<Rightarrow> string \<Rightarrow> nat \<Rightarrow> bool" where
  "occurs_at P s i = (i \<le> length s \<and> (\<exists>n \<in> {0 .. length s - i}. P (take n (drop i s))))"

text \<open>
  \<open>scan P s ms\<close>: the list \<open>ms\<close> holds the leftmost, non-overlapping substrings of
  \<open>s\<close> of shape \<open>P\<close>, from left to right: each starts at the first position, behind
  the one before it, at which a word of shape \<open>P\<close> starts, and behind the last no such
  word starts anywhere.
\<close>

fun scan :: "(string \<Rightarrow> bool) \<Rightarrow> string \<Rightarrow> string list \<Rightarrow> bool" where
  "scan P s [] = (\<forall>i \<le> length s. \<not> occurs_at P s i)"
| "scan P s (m # ms) =
     (\<exists>i \<le> length s. occurs_at P s i \<and> (\<forall>j < i. \<not> occurs_at P s j) \<and> m \<noteq> [] \<and> P m
        \<and> take (length m) (drop i s) = m \<and> scan P (drop (i + length m) s) ms)"

text \<open>One or more digits, a decimal point, exactly two digits.\<close>

definition amount_shape :: "string \<Rightarrow> bool" where
  "amount_shape w =
     (4 \<le> length w \<and> list_all isdigit (take (length w - 3) w) \<and> w ! (length w - 3) = CHR ''.''
      \<and> list_all isdigit (drop (length w - 2) w))"

text \<open>A line starts with a number: a digit, or a dollar sign and a digit.\<close>

definition starts_numeric :: "string \<Rightarrow> bool" where
  "starts_numeric l =
     (case l of
        [] \<Rightarrow> False
      | c # cs \<Rightarrow> isdigit c \<or> (c = CHR ''$'' \<and> (case cs of [] \<Rightarrow> False | d # ds \<Rightarrow> isdigit d)))"

text \<open>A line survives the filters of the vendor search.\<close>

definition survives :: "string \<Rightarrow> bool" where
  "survives l =
     (\<not> starts_numeric l \<and> 3 < length l \<and> \<not> substring ''receipt'' (lower l)
      \<and> \<not> substring ''tax'' (lower l))"

text \<open>The first whitespace-delimited word of a line.\<close>

definition first_word :: "string \<Rightarrow> string" where
  "first_word l = takeWhile (\<lambda>c. \<not> isspace c) (dropWhile isspace l)"

text \<open>A stand-in for the date parser, for instances: it reads the ten characters
  \<open>YYYY-MM-DD\<close> of a valid date and returns \<open>NaT\<close> on everything else.\<close>

definition iso_only :: to_datetime where
  "iso_only s =
     (let d = \<lparr>year = nat_of_digits (take 4 s), month = nat_of_digits (take 2 (drop 5 s)),
               day = nat_of_digits (drop 8 s)\<rparr>
      in if iso_date_string s \<and> valid_date d then Inr (Timestamp d) else Inr NaT)"


text \<open>A pattern all of whose repetitions have a fixed count, and the length of the words
  it denotes.\<close>

fun exact :: "pattern \<Rightarrow> bool" where
  "exact [] = True"
| "exact (Rep cls lo hi # p) = (hi = Some lo \<and> exact p)"

fun lo_sum :: "pattern \<Rightarrow> nat" where
  "lo_sum [] = 0"
| "lo_sum (Rep cls lo hi # p) = lo + lo_sum p"

text \<open>A dictionary as the upload block hands it to the export, for instances.\<close>

definition sample_expense :: pydict where
  "sample_expense =
     (as_dict \<lparr>amount = 45, date = ''2024-01-05'', vendor = ''Joe's'',
               description = ''Joe's Diner''\<rparr>)(''category'' \<mapsto> Str ''food'')"

section \<open>Substrings and the category loop\<close>

lemma startswith_iff: "startswith s k = (\<exists>post. s = k @ post)"
  by (induction s k rule: startswith.induct) auto

lemma contains_iff: "contains s k = substring k s"
proof (induction s)
  case Nil
  then show ?case by (auto simp: substring_def)
next
  case (Cons c cs)
  show ?case
  proof
    assume "contains (c # cs) k"
    then consider "startswith (c # cs) k" | "contains cs k" by auto
    then show "substring k (c # cs)"
    proof cases
      case 1
      then obtain post where "c # cs = k @ post" by (auto simp: startswith_iff)
      then have "c # cs = [] @ k @ post" by simp
      then show ?thesis unfolding substring_def by blast
    next
      case 2
      with Cons obtain pre post where "cs = pre @ k @ post" by (auto simp: substring_def)
      then have "c # cs = (c # pre) @ k @ post" by simp
      then show ?thesis unfolding substring_def by blast
    qed
  next
    assume "substring k (c # cs)"
    then obtain pre post where e: "c # cs = pre @ k @ post" by (auto simp: substring_def)
    show "contains (c # cs) k"
    proof (cases pre)
      case Nil
      with e have "\<exists>post. c # cs = k @ post" by auto
      then have "startswith (c # cs) k" by (simp only: startswith_iff)
      then show ?thesis by simp
    next
      case (Cons a pre')
      with e have "cs = pre' @ k @ post" by simp
      then have "substring k cs" unfolding substring_def by blast
      with Cons.IH show ?thesis by simp
    qed
  qed
qed

lemma categorize_loop_first:
  "i < length cats \<Longrightarrow> hit s (cats ! i) \<Longrightarrow> (\<forall>j<i. \<not> hit s (cats ! j)) \<Longrightarrow>
   categorize_loop cats s = fst (cats ! i)"
proof (induction cats arbitrary: i)
  case Nil
  then show ?case by simp
next
  case (Cons e cats)
  obtain c ks where e: "e = (c, ks)" by (cases e)
  show ?case
  proof (cases i)
    case 0
    with Cons.prems e show ?thesis by (auto simp: hit_def list_ex_iff contains_iff)
  next
    case (Suc i')
    with Cons.prems have "\<not> hit s e" by auto
    moreover have "categorize_loop cats s = fst (cats ! i')"
      using Cons.prems Suc by (intro Cons.IH) auto
    ultimately show ?thesis using e Suc by (auto simp: hit_def list_ex_iff contains_iff)
  qed
qed

lemma categorize_loop_none:
  "(\<forall>i<length cats. \<not> hit s (cats ! i)) \<Longrightarrow> categorize_loop cats s = ''other''"
proof (induction cats)
  case Nil
  then show ?case by simp
next
  case (Cons e cats)
  obtain c ks where e: "e = (c, ks)" by (cases e)
  from Cons.prems have "\<not> hit s e" by auto
  moreover have "\<forall>i<length cats. \<not> hit s (cats ! i)" using Cons.prems by auto
  ultimately show ?case using e Cons.IH by (auto simp: hit_def list_ex_iff contains_iff)
qed

section \<open>The matcher finds what the patterns denote\<close>

lemma first_some_Some: "first_some f ks = Some r \<Longrightarrow> \<exists>k \<in> set ks. f k = Some r"
  by (induction ks) (auto split: option.splits)

lemma first_some_None: "first_some f ks = None \<longleftrightarrow> (\<forall>k \<in> set ks. f k = None)"
  by (induction ks) (auto split: option.splits)

lemma first_some_hit: "k \<in> set ks \<Longrightarrow> f k = Some r \<Longrightarrow> \<exists>r'. first_some f ks = Some r'"
  using first_some_None[of f ks] by (cases "first_some f ks") auto

lemma greedy_le: "greedy cls hi s \<le> length (takeWhile cls s)"
  by (auto simp: greedy_def Let_def split: option.splits)

lemma greedy_within: "k \<le> greedy cls hi s \<Longrightarrow> below k hi"
  by (cases hi) (auto simp: greedy_def Let_def)

lemma take_takeWhile_all: "k \<le> length (takeWhile P s) \<Longrightarrow> list_all P (take k s)"
proof -
  assume k: "k \<le> length (takeWhile P s)"
  have "take k s = take k (takeWhile P s)"
    by (metis k takeWhile_dropWhile_id take_append diff_is_0_eq' take_0 append_Nil2)
  moreover have "list_all P (takeWhile P s)" by (auto simp: list_all_iff dest: set_takeWhileD)
  ultimately show ?thesis by (auto simp: list_all_iff dest: in_set_takeD)
qed

lemma all_take_le_takeWhile: "k \<le> length s \<Longrightarrow> list_all P (take k s) \<Longrightarrow> k \<le> length (takeWhile P s)"
proof (induction s arbitrary: k)
  case Nil
  then show ?case by simp
next
  case (Cons c cs)
  then show ?case by (cases k) auto
qed

lemma le_greedy: "k \<le> length s \<Longrightarrow> list_all cls (take k s) \<Longrightarrow> below k hi \<Longrightarrow> k \<le> greedy cls hi s"
  using all_take_le_takeWhile[of k s cls] by (cases hi) (auto simp: greedy_def Let_def)

lemma match_here_sound:
  "match_here p s = Some r \<Longrightarrow> \<exists>m. s = m @ r \<and> lang p m"
proof (induction p arbitrary: s)
  case Nil
  then show ?case by simp
next
  case (Cons it p)
  obtain cls lo hi where it: "it = Rep cls lo hi" by (cases it)
  from Cons.prems it obtain k where k: "lo \<le> k" "k \<le> greedy cls hi s"
      and m: "match_here p (drop k s) = Some r"
    by (auto dest!: first_some_Some)
  from Cons.IH[OF m] obtain m' where m': "drop k s = m' @ r" "lang p m'" by blast
  have kl: "k \<le> length s" using k(2) greedy_le[of cls hi s] length_takeWhile_le[of cls s] by linarith
  let ?m = "take k s @ m'"
  have "s = ?m @ r" using m'(1) by (metis append.assoc append_take_drop_id)
  moreover have "lang (Rep cls lo hi # p) ?m"
  proof -
    have "k \<in> {lo .. length ?m}" using k(1) kl by simp
    moreover have "below k hi" using k(2) by (rule greedy_within)
    moreover have "list_all cls (take k ?m)"
      using take_takeWhile_all[of k cls s] k(2) greedy_le[of cls hi s] kl by simp
    moreover have "lang p (drop k ?m)" using m'(2) kl by simp
    ultimately show ?thesis by (simp only: lang.simps) blast
  qed
  ultimately show ?case using it by blast
qed

lemma match_here_complete:
  "lang p m \<Longrightarrow> \<exists>r'. match_here p (m @ r) = Some r'"
proof (induction p arbitrary: m)
  case Nil
  then show ?case by simp
next
  case (Cons it p)
  obtain cls lo hi where it: "it = Rep cls lo hi" by (cases it)
  from Cons.prems it obtain k where k: "lo \<le> k" "k \<le> length m" "below k hi"
      "list_all cls (take k m)" "lang p (drop k m)"
    by auto
  from Cons.IH[OF k(5)] obtain r' where "match_here p (drop k m @ r) = Some r'" by blast
  then have f: "match_here p (drop k (m @ r)) = Some r'" using k(2) by simp
  have "k \<le> greedy cls hi (m @ r)"
    using k by (intro le_greedy) auto
  then have "k \<in> set (rev [lo ..< Suc (greedy cls hi (m @ r))])" using k(1) by auto
  from first_some_hit[of k _ "\<lambda>k. match_here p (drop k (m @ r))", OF this f]
  obtain r'' where "match_here (Rep cls lo hi # p) (m @ r) = Some r''"
    by (auto simp only: match_here.simps)
  then show ?case using it by auto
qed


lemma occurs_at_iff: "i \<le> length s \<Longrightarrow> occurs_at (lang p) s i \<longleftrightarrow> match_here p (drop i s) \<noteq> None"
proof
  assume i: "i \<le> length s" and "occurs_at (lang p) s i"
  then obtain n where n: "n \<le> length s - i" "lang p (take n (drop i s))"
    by (auto simp: occurs_at_def)
  from match_here_complete[OF n(2), of "drop n (drop i s)"]
  show "match_here p (drop i s) \<noteq> None" by (simp del: drop_drop)
next
  assume i: "i \<le> length s" and "match_here p (drop i s) \<noteq> None"
  then obtain r where "match_here p (drop i s) = Some r" by auto
  from match_here_sound[OF this] obtain m where m: "drop i s = m @ r" "lang p m" by blast
  from m(1) have "length m \<le> length s - i" by (metis length_drop length_append le_add1)
  moreover have "take (length m) (drop i s) = m" using m(1) by simp
  ultimately show "occurs_at (lang p) s i" using i m(2) unfolding occurs_at_def by force
qed

lemma occurs_at_Cons: "occurs_at (lang p) (c # cs) (Suc i) = occurs_at (lang p) cs i"
  by (simp add: occurs_at_def)

lemma match_here_matched:
  assumes "match_here p s = Some r"
  shows "s = matched s r @ r" and "lang p (matched s r)" and "length r \<le> length s"
proof -
  from match_here_sound[OF assms] obtain m where m: "s = m @ r" "lang p m" by blast
  then have "matched s r = m" by (simp add: matched_def)
  with m show "s = matched s r @ r" and "lang p (matched s r)" by simp_all
  from m(1) show "length r \<le> length s" by (metis length_append le_add2)
qed

lemma re_search_None: "re_search p s = None \<longleftrightarrow> (\<forall>i \<le> length s. \<not> occurs_at (lang p) s i)"
proof (induction s)
  case Nil
  then show ?case using occurs_at_iff[of 0 "[]" p] by (auto split: option.splits)
next
  case (Cons c cs)
  have 0: "occurs_at (lang p) (c # cs) 0 \<longleftrightarrow> match_here p (c # cs) \<noteq> None"
    using occurs_at_iff[of 0 "c # cs" p] by simp
  have "(\<forall>i \<le> length (c # cs). \<not> occurs_at (lang p) (c # cs) i) \<longleftrightarrow>
        (\<not> occurs_at (lang p) (c # cs) 0 \<and> (\<forall>i \<le> length cs. \<not> occurs_at (lang p) cs i))"
    (is "?L \<longleftrightarrow> ?R")
  proof
    assume ?L
    then have "\<not> occurs_at (lang p) (c # cs) 0" by auto
    moreover have "\<not> occurs_at (lang p) cs i" if "i \<le> length cs" for i
      using \<open>?L\<close> that occurs_at_Cons[of p c cs i] by auto
    ultimately show ?R by blast
  next
    assume r: ?R
    show ?L
    proof (intro allI impI)
      fix i assume "i \<le> length (c # cs)"
      then show "\<not> occurs_at (lang p) (c # cs) i"
        using r occurs_at_Cons[of p c cs] by (cases i) auto
    qed
  qed
  then show ?case using Cons.IH 0 by (auto split: option.splits)
qed

lemma re_search_Some:
  "re_search p s = Some m \<Longrightarrow>
   \<exists>i \<le> length s. occurs_at (lang p) s i \<and> (\<forall>j < i. \<not> occurs_at (lang p) s j) \<and> lang p m
      \<and> take (length m) (drop i s) = m"
proof (induction s)
  case Nil
  then obtain r where r: "match_here p [] = Some r" "m = []" by (auto split: option.splits)
  then have "occurs_at (lang p) [] 0" using occurs_at_iff[of 0 "[]" p] by simp
  moreover from match_here_sound[OF r(1)] have "lang p []" by auto
  ultimately show ?case using r(2) by auto
next
  case (Cons c cs)
  show ?case
  proof (cases "match_here p (c # cs)")
    case None
    with Cons.prems have "re_search p cs = Some m" by simp
    from Cons.IH[OF this] obtain i where i: "i \<le> length cs" "occurs_at (lang p) cs i"
      "\<forall>j < i. \<not> occurs_at (lang p) cs j" "lang p m" "take (length m) (drop i cs) = m" by blast
    have n0: "\<not> occurs_at (lang p) (c # cs) 0" using None occurs_at_iff[of 0 "c # cs" p] by simp
    have "\<not> occurs_at (lang p) (c # cs) j" if "j < Suc i" for j
      using that n0 i(3) occurs_at_Cons[of p c cs] by (cases j) auto
    then have "\<forall>j < Suc i. \<not> occurs_at (lang p) (c # cs) j" by blast
    moreover have "occurs_at (lang p) (c # cs) (Suc i)" using i(2) by (simp only: occurs_at_Cons)
    moreover have "take (length m) (drop (Suc i) (c # cs)) = m" using i(5) by simp
    moreover have "Suc i \<le> length (c # cs)" using i(1) by simp
    ultimately show ?thesis using i(4) by blast
  next
    case (Some r)
    with Cons.prems have m: "m = matched (c # cs) r" by simp
    from match_here_matched[OF Some] have "c # cs = m @ r" "lang p m" using m by simp_all
    moreover have "occurs_at (lang p) (c # cs) 0" using Some occurs_at_iff[of 0 "c # cs" p] by simp
    moreover from \<open>c # cs = m @ r\<close> have "take (length m) (drop 0 (c # cs)) = m"
      by (metis append_eq_conv_conj drop0)
    ultimately show ?thesis by (intro exI[of _ 0]) simp
  qed
qed

lemma findall_scan: "\<not> lang p [] \<Longrightarrow> scan (lang p) s (findall p s)"
proof (induction p s rule: findall.induct)
  case (1 p)
  then have "match_here p [] = None"
    using match_here_sound[of p "[]"] by (cases "match_here p []") auto
  then show ?case using occurs_at_iff[of 0 "[]" p] by simp
next
  case (2 p c cs)
  show ?case
  proof (cases "match_here p (c # cs)")
    case None
    then have n0: "\<not> occurs_at (lang p) (c # cs) 0" using occurs_at_iff[of 0 "c # cs" p] by simp
    from None 2 have ih: "scan (lang p) cs (findall p cs)" by simp
    have f: "findall p (c # cs) = findall p cs" using None by simp
    show ?thesis
    proof (cases "findall p cs")
      case Nil
      with ih have "\<forall>i \<le> length cs. \<not> occurs_at (lang p) cs i" by simp
      then have "\<not> occurs_at (lang p) (c # cs) i" if "i \<le> length (c # cs)" for i
        using that n0 occurs_at_Cons[of p c cs] by (cases i) auto
      then show ?thesis using f Nil by simp
    next
      case (Cons m ms)
      with ih obtain i where i: "i \<le> length cs" "occurs_at (lang p) cs i"
        "\<forall>j < i. \<not> occurs_at (lang p) cs j" "m \<noteq> []" "lang p m" "take (length m) (drop i cs) = m"
        "scan (lang p) (drop (i + length m) cs) ms" by auto
      have "\<not> occurs_at (lang p) (c # cs) j" if "j < Suc i" for j
        using that n0 i(3) occurs_at_Cons[of p c cs] by (cases j) auto
      then have "\<forall>j < Suc i. \<not> occurs_at (lang p) (c # cs) j" by blast
      moreover have "occurs_at (lang p) (c # cs) (Suc i)" using i(2) by (simp only: occurs_at_Cons)
      moreover have "take (length m) (drop (Suc i) (c # cs)) = m" using i(6) by simp
      moreover have "scan (lang p) (drop (Suc i + length m) (c # cs)) ms" using i(7) by simp
      moreover have "Suc i \<le> length (c # cs)" using i(1) by simp
      ultimately have "scan (lang p) (c # cs) (m # ms)" using i(4,5)
        by (simp only: scan.simps) blast
      then show ?thesis using f Cons by simp
    qed
  next
    case (Some r)
    let ?m = "matched (c # cs) r"
    from match_here_matched[OF Some] have m: "c # cs = ?m @ r" "lang p ?m" by simp_all
    with 2(4) have ne: "?m \<noteq> []" by auto
    with m(1) have lt: "length r < length (c # cs)"
      by (metis length_append length_greater_0_conv less_add_same_cancel2)
    with Some 2 have ih: "scan (lang p) r (findall p r)" by simp
    have f: "findall p (c # cs) = ?m # findall p r" using Some lt by simp
    have "occurs_at (lang p) (c # cs) 0" using Some occurs_at_iff[of 0 "c # cs" p] by simp
    moreover have "take (length ?m) (drop 0 (c # cs)) = ?m" using m(1)
      by (metis append_eq_conv_conj drop0)
    moreover have "drop (0 + length ?m) (c # cs) = r" using m(1)
      by (metis append_eq_conv_conj add_0)
    ultimately have "scan (lang p) (c # cs) (?m # findall p r)" using ne m(2) ih
      by (simp only: scan.simps) (intro exI[of _ 0], simp)
    then show ?thesis using f by simp
  qed
qed

section \<open>Amounts\<close>

lemma isdigit_dot: "\<not> isdigit CHR ''.''"
  by (simp add: isdigit_def code_def)

lemma lang_RepE:
  assumes "lang (Rep cls lo hi # p) w"
  obtains k where "lo \<le> k" "k \<le> length w" "below k hi" "list_all cls (take k w)"
    "lang p (drop k w)"
  using assms by auto

lemma lang_amount_shape: "lang amount_pattern w \<Longrightarrow> amount_shape w"
proof -
  assume "lang amount_pattern w"
  then have "lang (Rep isdigit 1 None # [Rep (\<lambda>x. x = CHR ''.'') 1 (Some 1), Rep isdigit 2 (Some 2)]) w"
    by (simp add: amount_pattern_def lit_def)
  then obtain k where k: "1 \<le> k" "k \<le> length w" "list_all isdigit (take k w)"
      and l2: "lang (Rep (\<lambda>x. x = CHR ''.'') 1 (Some 1) # [Rep isdigit 2 (Some 2)]) (drop k w)"
    by (rule lang_RepE)
  from l2 obtain k2 where k2: "1 \<le> k2" "k2 \<le> length (drop k w)" "below k2 (Some 1)"
      "list_all (\<lambda>x. x = CHR ''.'') (take k2 (drop k w))"
      and l3: "lang (Rep isdigit 2 (Some 2) # []) (drop k2 (drop k w))"
    by (rule lang_RepE)
  from l3 obtain k3 where k3: "2 \<le> k3" "k3 \<le> length (drop k2 (drop k w))" "below k3 (Some 2)"
      "list_all isdigit (take k3 (drop k2 (drop k w)))" "lang [] (drop k3 (drop k2 (drop k w)))"
    by (rule lang_RepE)
  from k2 have k2': "k2 = 1" by simp
  from k3 have k3': "k3 = 2" by simp
  from k3(5) k3(2) have len: "length w = k + 3" using k2' k3' k(2) by simp
  have dot: "w ! k = CHR ''.''"
  proof -
    from k2(4) k2' have "list_all (\<lambda>x. x = CHR ''.'') (take 1 (drop k w))" by simp
    moreover have "take 1 (drop k w) = [w ! k]" using len
      by (simp add: take_Suc_conv_app_nth)
    ultimately show ?thesis by simp
  qed
  have "list_all isdigit (drop (k + 1) w)"
    using k3(4) k2' k3' k3(5) len by (simp add: add.commute)
  with k dot len show ?thesis by (simp add: amount_shape_def)
qed

lemma py_float_amount:
  assumes "amount_shape w"
  shows "\<exists>x. py_float w = Inr x \<and> 0 \<le> x"
proof -
  let ?n = "length w - 3"
  from assms have a: "4 \<le> length w" "list_all isdigit (take ?n w)" "w ! ?n = CHR ''.''"
    "list_all isdigit (drop (length w - 2) w)" by (auto simp: amount_shape_def)
  have "?n < length w" using a(1) by simp
  from id_take_nth_drop[OF this] a(3)
  have w: "w = take ?n w @ CHR ''.'' # drop (Suc ?n) w" by simp
  have tw: "takeWhile isdigit w = take ?n w"
    using a(2) isdigit_dot
    by (subst w) (simp add: list_all_iff)
  have dw: "dropWhile isdigit w = CHR ''.'' # drop (Suc ?n) w"
    using a(2) isdigit_dot
    by (subst w) (simp add: list_all_iff)
  have s: "Suc ?n = length w - 2" using a(1) by simp
  have ne: "take ?n w \<noteq> []" using a(1) by auto
  show ?thesis
    unfolding py_float_def Let_def tw dw using a(4) ne s by simp
qed

section \<open>Texts without digits or letters\<close>

lemma greedy_none: "\<forall>c \<in> set s. \<not> cls c \<Longrightarrow> greedy cls hi s = 0"
  by (cases s) (auto simp: greedy_def Let_def split: option.splits)

lemma match_here_none:
  "\<forall>c \<in> set s. \<not> cls c \<Longrightarrow> 0 < lo \<Longrightarrow> match_here (Rep cls lo hi # p) s = None"
  by (simp add: greedy_none)

lemma re_search_none:
  "\<forall>c \<in> set s. \<not> cls c \<Longrightarrow> 0 < lo \<Longrightarrow> re_search (Rep cls lo hi # p) s = None"
proof (induction s)
  case Nil
  then show ?case by (simp add: greedy_none)
next
  case (Cons c cs)
  then have "match_here (Rep cls lo hi # p) (c # cs) = None" by (intro match_here_none) auto
  with Cons show ?case by simp
qed

lemma findall_none:
  "\<forall>c \<in> set s. \<not> cls c \<Longrightarrow> 0 < lo \<Longrightarrow> findall (Rep cls lo hi # p) s = []"
proof (induction s)
  case Nil
  then show ?case by (simp add: greedy_none)
next
  case (Cons c cs)
  then have "match_here (Rep cls lo hi # p) (c # cs) = None" by (intro match_here_none) auto
  with Cons show ?case by simp
qed

lemma space_not_digit: "isspace c \<Longrightarrow> \<not> isdigit c"
  by (auto simp: isspace_def isdigit_def)

lemma space_not_letter: "isspace c \<Longrightarrow> \<not> isletter c"
  by (auto simp: isspace_def isletter_def)

lemma space_not_comma: "isspace c \<Longrightarrow> c \<noteq> CHR '',''"
  by (auto simp: isspace_def code_def)

lemma strip_empty_iff: "strip s = [] \<longleftrightarrow> list_all isspace s"
proof
  assume "list_all isspace s"
  then have "dropWhile isspace s = []" by (metis dropWhile_eq_Nil_conv list_all_iff)
  then show "strip s = []"
    by (simp only: strip_def lstrip_def rstrip_def rev.simps dropWhile.simps)
next
  assume "strip s = []"
  then have a: "\<forall>x \<in> set (dropWhile isspace s). isspace x"
    by (simp add: strip_def lstrip_def rstrip_def)
  have "dropWhile isspace s = []"
  proof (rule ccontr)
    assume n: "dropWhile isspace s \<noteq> []"
    then have "\<not> isspace (hd (dropWhile isspace s))" by (rule hd_dropWhile)
    moreover have "hd (dropWhile isspace s) \<in> set (dropWhile isspace s)" using n by simp
    ultimately show False using a by blast
  qed
  then show "list_all isspace s" by (metis dropWhile_eq_Nil_conv list_all_iff)
qed

lemma strip_blank: "list_all isspace s \<Longrightarrow> strip s = []"
  by (simp add: strip_empty_iff)

lemma date_found_blank: "list_all isspace s \<Longrightarrow> date_found s = None"
proof -
  assume a: "list_all isspace s"
  then have d: "\<forall>c \<in> set s. \<not> isdigit c" and l: "\<forall>c \<in> set s. \<not> isletter c"
    by (auto simp: list_all_iff space_not_digit space_not_letter)
  show ?thesis
    unfolding date_found_def date_patterns_def iso_pattern_def slash_pattern_def
      hyphen_pattern_def month_pattern_def
    using re_search_none[OF d] re_search_none[OF l] by simp
qed

lemma amounts_blank:
  assumes "list_all isspace s"
  shows "findall amount_pattern (replace CHR '','' CHR ''.'' s) = []"
proof -
  have "replace CHR '','' CHR ''.'' s = s"
    using assms by (induction s) (auto simp: replace_def space_not_comma)
  moreover have "\<forall>c \<in> set s. \<not> isdigit c" using assms by (auto simp: list_all_iff space_not_digit)
  ultimately show ?thesis unfolding amount_pattern_def by (simp add: findall_none)
qed

lemma vendor_blank: "vendor_loop (split_on (CHR 0x0A) []) = ''Unknown''"
  by (simp add: split_on_def strip_def lstrip_def rstrip_def)

section \<open>Formatting a date\<close>

lemma zero_pad_2: "zero_pad 2 n = [digit_char (n div 10 mod 10), digit_char (n mod 10)]"
  by (simp add: zero_pad_def numeral_2_eq_2)

lemma zero_pad_4:
  "zero_pad 4 n =
     [digit_char (n div 1000 mod 10), digit_char (n div 100 mod 10), digit_char (n div 10 mod 10),
      digit_char (n mod 10)]"
proof -
  have "rev [0 ..< 4] = [3, 2, 1, 0::nat]" by (simp add: upt_rec)
  then show ?thesis by (simp add: zero_pad_def)
qed

lemma code_digit_char: "k < 10 \<Longrightarrow> code (digit_char k) = 48 + k"
  by (simp add: code_def digit_char_def)

lemma isdigit_digit_char: "k < 10 \<Longrightarrow> isdigit (digit_char k)"
  by (simp add: isdigit_def code_digit_char)

lemma digit_val_digit_char: "k < 10 \<Longrightarrow> digit_val (digit_char k) = k"
  by (simp add: digit_val_def code_digit_char)

lemma nat_of_digits_pad_2: "n < 100 \<Longrightarrow> nat_of_digits (zero_pad 2 n) = n"
  by (simp add: zero_pad_2 nat_of_digits_def digit_val_digit_char)

lemma div_digits_4:
  assumes "(n::nat) < 10000"
  shows "10 * (10 * (10 * (n div 1000 mod 10) + n div 100 mod 10) + n div 10 mod 10) + n mod 10 = n"
proof -
  define a where "a = n div 10"
  define b where "b = a div 10"
  define c where "c = b div 10"
  have b': "n div 100 = b" unfolding b_def a_def by (simp add: div_mult2_eq)
  have c': "n div 1000 = c" unfolding c_def b_def a_def by (simp add: div_mult2_eq)
  have "c < 10" using assms unfolding c'[symmetric] by simp
  then have cm: "c mod 10 = c" by simp
  have 1: "10 * c + b mod 10 = b" unfolding c_def by simp
  have 2: "10 * b + a mod 10 = a" unfolding b_def by simp
  have 3: "10 * a + n mod 10 = n" unfolding a_def by simp
  show ?thesis unfolding b' c' cm a_def[symmetric] 1 2 3 ..
qed

lemma nat_of_digits_pad_4: "n < 10000 \<Longrightarrow> nat_of_digits (zero_pad 4 n) = n"
  using div_digits_4[of n]
  by (simp add: zero_pad_4 nat_of_digits_def digit_val_digit_char)

lemma days_in_month_le: "days_in_month y m \<le> 31"
  by (simp add: days_in_month_def)

lemma digit_chars:
  "digit_char 0 = CHR ''0''" "digit_char 1 = CHR ''1''" "digit_char 2 = CHR ''2''"
  "digit_char 3 = CHR ''3''" "digit_char 4 = CHR ''4''" "digit_char 5 = CHR ''5''"
  "digit_char 6 = CHR ''6''" "digit_char 7 = CHR ''7''" "digit_char 8 = CHR ''8''"
  "digit_char 9 = CHR ''9''"
  unfolding digit_char_def by code_simp+

lemma decimal_small: "n < 10 \<Longrightarrow> decimal n = [digit_char n]"
  by (subst decimal.simps) simp

lemma decimal_step: "10 \<le> n \<Longrightarrow> decimal n = decimal (n div 10) @ [digit_char (n mod 10)]"
  by (subst decimal.simps) simp


lemma decimal_4:
  assumes "1000 \<le> n" "n < 10000"
  shows "decimal n = zero_pad 4 n"
proof -
  have b: "n div 10 div 10 = n div 100" "n div 100 div 10 = n div 1000"
    by (simp_all add: div_mult2_eq)
  have c: "n div 1000 mod 10 = n div 1000" using assms(2) by simp
  have 1: "decimal n = decimal (n div 10) @ [digit_char (n mod 10)]"
    using assms by (intro decimal_step) simp
  have 2: "decimal (n div 10) = decimal (n div 100) @ [digit_char (n div 10 mod 10)]"
    using assms decimal_step[of "n div 10"] by (simp add: b)
  have 3: "decimal (n div 100) = decimal (n div 1000) @ [digit_char (n div 100 mod 10)]"
    using assms decimal_step[of "n div 100"] by (simp add: b)
  have 4: "decimal (n div 1000) = [digit_char (n div 1000)]"
    using assms by (intro decimal_small) simp
  show ?thesis by (simp only: 1 2 3 4 zero_pad_4 c) simp
qed

lemma strftime_pad:
  "1000 \<le> year d \<Longrightarrow> year d \<le> 9999 \<Longrightarrow>
   strftime d = zero_pad 4 (year d) @ ''-'' @ zero_pad 2 (month d) @ ''-'' @ zero_pad 2 (day d)"
  by (simp add: strftime_def decimal_4)

lemma strftime_valid:
  assumes "valid_date d"
  shows "iso_date_string (strftime d)"
proof -
  have strftime_def: "strftime d = zero_pad 4 (year d) @ ''-'' @ zero_pad 2 (month d) @ ''-'' @ zero_pad 2 (day d)"
    using assms by (intro strftime_pad) (simp_all add: valid_date_def)
  from assms have r: "year d < 10000" "month d < 100" "day d < 100"
      "1 \<le> month d" "month d \<le> 12" "1 \<le> day d" "day d \<le> days_in_month (year d) (month d)"
    using days_in_month_le[of "year d" "month d"] by (auto simp: valid_date_def)
  have l4: "length (zero_pad 4 (year d)) = 4" and l2: "length (zero_pad 2 (month d)) = 2"
    and l2': "length (zero_pad 2 (day d)) = 2"
    by (simp_all add: zero_pad_def)
  have t4: "take 4 (strftime d) = zero_pad 4 (year d)"
    using l4 by (simp add: strftime_def)
  have d4: "drop 4 (strftime d) = ''-'' @ zero_pad 2 (month d) @ ''-'' @ zero_pad 2 (day d)"
    using l4 by (simp add: strftime_def)
  have d5: "drop 5 (strftime d) = zero_pad 2 (month d) @ ''-'' @ zero_pad 2 (day d)"
    using l4 by (simp add: strftime_def)
  have d7: "drop 7 (strftime d) = ''-'' @ zero_pad 2 (day d)"
    using l4 l2 by (simp add: strftime_def)
  have d8: "drop 8 (strftime d) = zero_pad 2 (day d)"
    using l4 l2 by (simp add: strftime_def)
  have t2: "take 2 (drop 5 (strftime d)) = zero_pad 2 (month d)"
    using l2 by (simp add: d5)
  have len: "length (strftime d) = 10" using l4 l2 l2' by (simp add: strftime_def)
  have g4: "list_all isdigit (zero_pad 4 (year d))"
    by (simp add: zero_pad_4 isdigit_digit_char)
  have g2: "list_all isdigit (zero_pad 2 n)" for n
    by (simp add: zero_pad_2 isdigit_digit_char)
  have n4: "nat_of_digits (zero_pad 4 (year d)) = year d" using r(1) by (rule nat_of_digits_pad_4)
  have n2: "nat_of_digits (zero_pad 2 (month d)) = month d" using r(2) by (rule nat_of_digits_pad_2)
  have n2': "nat_of_digits (zero_pad 2 (day d)) = day d" using r(3) by (rule nat_of_digits_pad_2)
  show ?thesis
    unfolding iso_date_string_def t4 t2 d8 len d4 d7 n4 n2 n2'
    using r g4 g2 by simp
qed

section \<open>The parser always returns\<close>

lemma scan_all: "scan P s ms \<Longrightarrow> \<forall>m \<in> set ms. P m"
  by (induction ms arbitrary: s) auto

lemma amount_pattern_nonempty: "\<not> lang amount_pattern []"
  using lang_amount_shape[of "[]"] by (auto simp: amount_shape_def)

lemma findall_amount_shape: "\<forall>m \<in> set (findall amount_pattern s). amount_shape m"
  using scan_all[OF findall_scan[OF amount_pattern_nonempty, of s]] lang_amount_shape by blast

lemma float_all_ok:
  "\<forall>m \<in> set ms. amount_shape m \<Longrightarrow>
   \<exists>vs. float_all ms = Inr vs \<and> list_all2 (\<lambda>m v. py_float m = Inr v) ms vs \<and> (\<forall>v \<in> set vs. 0 \<le> v)"
proof (induction ms)
  case Nil
  then show ?case by simp
next
  case (Cons m ms)
  then obtain vs where vs: "float_all ms = Inr vs" "list_all2 (\<lambda>m v. py_float m = Inr v) ms vs"
      "\<forall>v \<in> set vs. 0 \<le> v" by auto
  from Cons.prems py_float_amount[of m] obtain x where x: "py_float m = Inr x" "0 \<le> x" by auto
  have "float_all (m # ms) = Inr (x # vs)" using x(1) vs(1) by simp
  moreover have "list_all2 (\<lambda>m v. py_float m = Inr v) (m # ms) (x # vs)" using x(1) vs(2) by simp
  moreover have "\<forall>v \<in> set (x # vs). 0 \<le> v" using x(2) vs(3) by simp
  ultimately show ?case by blast
qed

lemma np_max_Max: "xs \<noteq> [] \<Longrightarrow> np_max xs = Inr (Max (set xs))"
  by (cases xs) (simp_all only: np_max.simps Max.set_eq_fold, simp)

lemma parse_expense_data_returns:
  "\<exists>vs. float_all (findall amount_pattern (replace CHR '','' CHR ''.'' text)) = Inr vs
     \<and> list_all2 (\<lambda>m v. py_float m = Inr v)
          (findall amount_pattern (replace CHR '','' CHR ''.'' text)) vs
     \<and> (\<forall>v \<in> set vs. 0 \<le> v)
     \<and> parse_expense_data now to_dt text =
         Inr \<lparr>amount = (if vs = [] then 0 else Max (set vs)),
              date = date_parsed now to_dt (date_found text),
              vendor = vendor_loop (split_on (CHR 0x0A) (strip text)),
              description = take 200 (strip text)\<rparr>"
proof -
  from float_all_ok[OF findall_amount_shape, of "replace CHR '','' CHR ''.'' text"]
  obtain vs where vs: "float_all (findall amount_pattern (replace CHR '','' CHR ''.'' text)) = Inr vs"
    "list_all2 (\<lambda>m v. py_float m = Inr v) (findall amount_pattern (replace CHR '','' CHR ''.'' text)) vs"
    "\<forall>v \<in> set vs. 0 \<le> v" by blast
  have "parse_expense_data now to_dt text =
         Inr \<lparr>amount = (if vs = [] then 0 else Max (set vs)),
              date = date_parsed now to_dt (date_found text),
              vendor = vendor_loop (split_on (CHR 0x0A) (strip text)),
              description = take 200 (strip text)\<rparr>"
    unfolding parse_expense_data_def vs(1) by (simp add: np_max_Max)
  with vs show ?thesis by blast
qed

section \<open>The vendor loop\<close>

lemma starts_numeric_append: "starts_numeric m \<Longrightarrow> starts_numeric (m @ r)"
  by (auto simp: starts_numeric_def split: list.splits)

lemma lang_digit_first:
  assumes "lang (Rep isdigit (Suc lo) hi # p) m"
  shows "\<exists>c cs. m = c # cs \<and> isdigit c"
proof -
  from assms obtain k where k: "Suc lo \<le> k" "k \<le> length m" "list_all isdigit (take k m)"
    by (rule lang_RepE)
  then obtain c cs where m: "m = c # cs" by (cases m) auto
  with k obtain k' where "k = Suc k'" by (cases k) auto
  with k(3) m have "isdigit c" by simp
  with m show ?thesis by blast
qed

lemma lang_alt1_numeric:
  assumes "lang [opt CHR ''$'', Rep isdigit 1 None, opt CHR ''.'', Rep isdigit 0 None] m"
  shows "starts_numeric m"
proof -
  from assms have "lang (Rep (\<lambda>x. x = CHR ''$'') 0 (Some 1)
      # (Rep isdigit (Suc 0) None # [opt CHR ''.'', Rep isdigit 0 None])) m"
    by (simp add: opt_def)
  then obtain k where k: "k \<le> length m" "below k (Some 1)"
      "list_all (\<lambda>x. x = CHR ''$'') (take k m)"
      and l: "lang (Rep isdigit (Suc 0) None # [opt CHR ''.'', Rep isdigit 0 None]) (drop k m)"
    by (rule lang_RepE)
  from lang_digit_first[OF l] obtain c cs where d: "drop k m = c # cs" "isdigit c" by blast
  from k(2) consider "k = 0" | "k = 1" by fastforce
  then show ?thesis
  proof cases
    case 1
    with d show ?thesis by (simp add: starts_numeric_def)
  next
    case 2
    with k(1) obtain a m' where m: "m = a # m'" by (cases m) auto
    with 2 k(3) d have "a = CHR ''$''" "m' = c # cs" by simp_all
    with m d(2) show ?thesis by (simp add: starts_numeric_def)
  qed
qed

lemma lang_alt2_numeric:
  assumes "lang [Rep isdigit 1 (Some 2), Rep (\<lambda>c. c = CHR ''/'' \<or> c = CHR ''-'') 1 (Some 1),
       Rep isdigit 1 (Some 2)] m"
  shows "starts_numeric m"
proof -
  from assms have "lang (Rep isdigit (Suc 0) (Some 2)
      # [Rep (\<lambda>c. c = CHR ''/'' \<or> c = CHR ''-'') 1 (Some 1), Rep isdigit 1 (Some 2)]) m"
    by simp
  from lang_digit_first[OF this] show ?thesis by (auto simp: starts_numeric_def)
qed

lemma lang_RepI:
  "lo \<le> k \<Longrightarrow> k \<le> length w \<Longrightarrow> below k hi \<Longrightarrow> list_all cls (take k w) \<Longrightarrow> lang p (drop k w)
   \<Longrightarrow> lang (Rep cls lo hi # p) w"
  by auto

lemma lang_alt1_tail: "lang [opt CHR ''.'', Rep isdigit 0 None] []"
  by (simp add: opt_def)

lemma lang_alt1_digits:
  assumes "isdigit c"
  shows "lang (Rep isdigit 1 None # [opt CHR ''.'', Rep isdigit 0 None]) [c]"
proof -
  have "lang [opt CHR ''.'', Rep isdigit 0 None] (drop 1 [c])" using lang_alt1_tail by simp
  then show ?thesis by (rule lang_RepI[of 1 1, rotated 4]) (simp_all add: assms)
qed

lemma lang_alt1_digit:
  assumes "isdigit c"
  shows "lang [opt CHR ''$'', Rep isdigit 1 None, opt CHR ''.'', Rep isdigit 0 None] [c]"
proof -
  have "lang (Rep isdigit 1 None # [opt CHR ''.'', Rep isdigit 0 None]) (drop 0 [c])"
    using lang_alt1_digits[OF assms] by simp
  then show ?thesis unfolding opt_def[of "CHR ''$''"]
    by (rule lang_RepI[of 0 0, rotated 4]) simp_all
qed

lemma lang_alt1_dollar:
  assumes "isdigit c"
  shows "lang [opt CHR ''$'', Rep isdigit 1 None, opt CHR ''.'', Rep isdigit 0 None] [CHR ''$'', c]"
proof -
  have "lang (Rep isdigit 1 None # [opt CHR ''.'', Rep isdigit 0 None]) (drop 1 [CHR ''$'', c])"
    using lang_alt1_digits[OF assms] by simp
  then show ?thesis unfolding opt_def[of "CHR ''$''"]
    by (rule lang_RepI[of 0 1, rotated 4]) simp_all
qed

lemma numeric_prefix_iff: "re_match_alt numeric_prefix l = starts_numeric l"
proof
  assume "re_match_alt numeric_prefix l"
  then consider r where "match_here [opt CHR ''$'', Rep isdigit 1 None, opt CHR ''.'', Rep isdigit 0 None] l = Some r"
    | r where "match_here [Rep isdigit 1 (Some 2), Rep (\<lambda>c. c = CHR ''/'' \<or> c = CHR ''-'') 1 (Some 1),
       Rep isdigit 1 (Some 2)] l = Some r"
    by (auto simp: re_match_alt_def numeric_prefix_def re_match_def)
  then show "starts_numeric l"
  proof cases
    case 1
    from match_here_sound[OF 1] lang_alt1_numeric starts_numeric_append show ?thesis by blast
  next
    case 2
    from match_here_sound[OF 2] lang_alt2_numeric starts_numeric_append show ?thesis by blast
  qed
next
  assume "starts_numeric l"
  then consider c cs where "l = c # cs" "isdigit c"
    | c cs where "l = CHR ''$'' # c # cs" "isdigit c"
    by (auto simp: starts_numeric_def split: list.splits)
  then have "\<exists>r. match_here [opt CHR ''$'', Rep isdigit 1 None, opt CHR ''.'', Rep isdigit 0 None] l = Some r"
  proof cases
    case 1
    from match_here_complete[OF lang_alt1_digit[OF 1(2)], of cs] 1(1) show ?thesis by simp
  next
    case 2
    from match_here_complete[OF lang_alt1_dollar[OF 2(2)], of cs] 2(1) show ?thesis by simp
  qed
  then show "re_match_alt numeric_prefix l"
    by (auto simp: re_match_alt_def numeric_prefix_def re_match_def)
qed

lemma words_acc_word:
  "acc \<noteq> [] \<Longrightarrow>
   words_acc acc s =
     (rev acc @ takeWhile (\<lambda>c. \<not> isspace c) s) # words_acc [] (dropWhile (\<lambda>c. \<not> isspace c) s)"
  by (induction s arbitrary: acc) auto

lemma words_acc_skip: "words_acc [] s = words_acc [] (dropWhile isspace s)"
  by (induction s) auto

lemma split_ws_first:
  assumes "dropWhile isspace s \<noteq> []"
  shows "\<exists>ws. split_ws s = first_word s # ws"
proof -
  from assms obtain c cs where d: "dropWhile isspace s = c # cs" by (cases "dropWhile isspace s") auto
  then have c: "\<not> isspace c" using hd_dropWhile[of isspace s] by auto
  have "split_ws s = words_acc [] (c # cs)" using words_acc_skip[of s] d by (simp add: split_ws_def)
  also have "\<dots> = words_acc [c] cs" using c by simp
  also have "\<dots> = (c # takeWhile (\<lambda>c. \<not> isspace c) cs) # words_acc [] (dropWhile (\<lambda>c. \<not> isspace c) cs)"
    using words_acc_word[of "[c]" cs] by simp
  finally show ?thesis using c d by (simp add: first_word_def)
qed

lemma words_acc_nonempty: "w \<in> set (words_acc acc s) \<Longrightarrow> w \<noteq> []"
  by (induction s arbitrary: acc) (auto split: if_splits)

lemma rstrip_prefix: "\<exists>t. s = rstrip s @ t"
proof -
  have "s = rev (dropWhile isspace (rev s)) @ rev (takeWhile isspace (rev s))"
    by (metis rev_append rev_rev_ident takeWhile_dropWhile_id)
  then show ?thesis unfolding rstrip_def ..
qed

lemma strip_starts: "strip l \<noteq> [] \<Longrightarrow> dropWhile isspace (strip l) = strip l"
proof -
  assume n: "strip l \<noteq> []"
  from rstrip_prefix[of "lstrip l"] obtain t where t: "lstrip l = strip l @ t" by (auto simp: strip_def)
  with n have "hd (strip l) = hd (lstrip l)" by (metis hd_append2)
  moreover have "lstrip l \<noteq> []" using t n by auto
  then have "\<not> isspace (hd (lstrip l))" unfolding lstrip_def by (rule hd_dropWhile)
  ultimately have "\<not> isspace (hd (strip l))" by simp
  with n show ?thesis by (cases "strip l") auto
qed

lemma vendor_loop_find:
  "vendor_loop ls =
     (case find survives (map strip ls) of None \<Rightarrow> ''Unknown'' | Some l \<Rightarrow> first_word l)"
proof (induction ls)
  case Nil
  then show ?case by simp
next
  case (Cons l ls)
  show ?case
  proof (cases "survives (strip l)")
    case True
    then have "strip l \<noteq> []" by (auto simp: survives_def)
    then have "dropWhile isspace (strip l) \<noteq> []" by (simp add: strip_starts)
    from split_ws_first[OF this] obtain ws where "split_ws (strip l) = first_word (strip l) # ws" ..
    with True show ?thesis
      by (simp add: survives_def numeric_prefix_iff contains_iff Let_def)
  next
    case False
    then show ?thesis using Cons.IH
      by (auto simp: survives_def numeric_prefix_iff contains_iff Let_def)
  qed
qed

lemma joes_vendor:
  "vendor_loop (split_on (CHR 0x0A)
     (strip (''$12.50'' @ [CHR 0x0A] @ ''RECEIPT'' @ [CHR 0x0A] @ ''Joe's Diner'' @ [CHR 0x0A]
             @ ''Tax: 1.00''))) = ''Joe's''"
  by code_simp

section \<open>The amounts are the leftmost matches\<close>

lemma amount_shape_split:
  assumes "amount_shape w"
  shows "w = take (length w - 3) w @ CHR ''.'' # drop (length w - 2) w"
proof -
  from assms have a: "4 \<le> length w" "w ! (length w - 3) = CHR ''.''"
    by (auto simp: amount_shape_def)
  then have "length w - 3 < length w" by simp
  from id_take_nth_drop[OF this] a(2)
  have "w = take (length w - 3) w @ CHR ''.'' # drop (Suc (length w - 3)) w" by simp
  moreover have "Suc (length w - 3) = length w - 2" using a(1) by simp
  ultimately show ?thesis by simp
qed

lemma amount_shape_digits:
  assumes "amount_shape w"
  shows "takeWhile isdigit (w @ r) = take (length w - 3) w"
proof -
  from assms have d: "list_all isdigit (take (length w - 3) w)" by (simp add: amount_shape_def)
  have "takeWhile isdigit (w @ r)
      = takeWhile isdigit (take (length w - 3) w @ (CHR ''.'' # drop (length w - 2) w @ r))"
    using amount_shape_split[OF assms] by (metis append.assoc append_Cons)
  also have "\<dots> = take (length w - 3) w"
    using d isdigit_dot by (simp add: list_all_iff)
  finally show ?thesis .
qed

lemma amount_shape_run:
  assumes "amount_shape m" "take (length m) u = m"
  shows "length m = length (takeWhile isdigit u) + 3"
proof -
  from assms(2) obtain r where "u = m @ r" by (metis append_take_drop_id)
  then have "takeWhile isdigit u = take (length m - 3) m"
    using amount_shape_digits[OF assms(1), of r] by simp
  moreover have "4 \<le> length m" using assms(1) by (simp add: amount_shape_def)
  ultimately show ?thesis by simp
qed

lemma trans_sym: "a = (c::nat) \<Longrightarrow> b = c \<Longrightarrow> a = b"
  by simp

lemma amount_shape_unique:
  assumes "amount_shape m" "amount_shape m'" "take (length m) u = m" "take (length m') u = m'"
  shows "m = m'"
proof -
  have "length m = length m'"
    using amount_shape_run[OF assms(1,3)] amount_shape_run[OF assms(2,4)] by (rule trans_sym)
  then have "take (length m) u = take (length m') u" by (rule arg_cong)
  then show ?thesis unfolding assms(3,4) .
qed

lemma amount_shape_lang:
  assumes "amount_shape w"
  shows "lang amount_pattern w"
proof -
  let ?n = "length w - 3"
  from assms have a: "4 \<le> length w" "list_all isdigit (take ?n w)" "w ! ?n = CHR ''.''"
    "list_all isdigit (drop (length w - 2) w)" by (auto simp: amount_shape_def)
  have dn: "drop ?n w = CHR ''.'' # drop (length w - 2) w"
    using amount_shape_split[OF assms] a(1)
    by (metis append_eq_conv_conj length_take min.absorb2 diff_le_self)
  have l3: "lang [] (drop 2 (drop (length w - 2) w))" using a(1) by simp
  have d1: "drop 1 (drop ?n w) = drop (length w - 2) w" unfolding dn by simp
  have l2: "lang (Rep isdigit 2 (Some 2) # []) (drop 1 (drop ?n w))"
    unfolding d1 using l3 by (rule lang_RepI[of 2 2, rotated 4]) (use a in simp_all)
  have l1: "lang (Rep (\<lambda>x. x = CHR ''.'') 1 (Some 1) # [Rep isdigit 2 (Some 2)]) (drop ?n w)"
    using l2 by (rule lang_RepI[of 1 1, rotated 4]) (simp_all add: dn)
  have "lang (Rep isdigit 1 None # [Rep (\<lambda>x. x = CHR ''.'') 1 (Some 1), Rep isdigit 2 (Some 2)]) w"
    using l1 by (rule lang_RepI[of 1 ?n, rotated 4]) (use a in simp_all)
  then show ?thesis by (simp add: amount_pattern_def lit_def)
qed

lemma lang_amount_eq: "lang amount_pattern = amount_shape"
  using lang_amount_shape amount_shape_lang by blast

lemma scan_unique:
  assumes uniq: "\<And>m m' u. P m \<Longrightarrow> P m' \<Longrightarrow> take (length m) u = m \<Longrightarrow> take (length m') u = m'
                  \<Longrightarrow> m = m'"
  shows "scan P s ms \<Longrightarrow> scan P s ms' \<Longrightarrow> ms = ms'"
proof (induction ms arbitrary: s ms')
  case Nil
  then show ?case by (cases ms') auto
next
  case (Cons m ms)
  from Cons.prems(1) obtain i where i: "i \<le> length s" "occurs_at P s i"
    "\<forall>j < i. \<not> occurs_at P s j" "P m" "take (length m) (drop i s) = m"
    "scan P (drop (i + length m) s) ms" by auto
  show ?case
  proof (cases ms')
    case Nil
    with Cons.prems(2) i(1,2) show ?thesis by auto
  next
    case (Cons m' ms'')
    with Cons.prems(2) obtain i' where i': "i' \<le> length s" "occurs_at P s i'"
      "\<forall>j < i'. \<not> occurs_at P s j" "P m'" "take (length m') (drop i' s) = m'"
      "scan P (drop (i' + length m') s) ms''" by auto
    have e: "i = i'" using i(2,3) i'(2,3) by (metis linorder_neqE_nat)
    have m: "m = m'" using uniq[OF i(4) i'(4) i(5)] i'(5) e by simp
    from Cons.IH[OF i(6)] i'(6) e m have "ms = ms''" by simp
    with m Cons show ?thesis by simp
  qed
qed

lemma findall_amount_scan: "scan amount_shape s (findall amount_pattern s)"
  using findall_scan[OF amount_pattern_nonempty, of s] by (simp add: lang_amount_eq)

lemma scan_amount_unique: "scan amount_shape s ms \<Longrightarrow> ms = findall amount_pattern s"
  using scan_unique[of amount_shape s ms "findall amount_pattern s"]
    amount_shape_unique findall_amount_scan by blast

lemma py_float_45: "py_float ''45.00'' = Inr 45"
  by (simp add: py_float_def isdigit_def code_def nat_of_digits_def digit_val_def)

lemma list_all2_float_mem:
  "list_all2 (\<lambda>m v. py_float m = Inr v) ms vs \<Longrightarrow> m \<in> set ms \<Longrightarrow> py_float m = Inr x
   \<Longrightarrow> x \<in> set vs"
  by (induction ms vs rule: list_all2_induct) auto

lemma sample_findall:
  "findall amount_pattern (replace CHR '','' CHR ''.'' ''12,50 45.00 3.20'')
     = [''12.50'', ''45.00'', ''3.20'']"
  by code_simp

lemma sample_floats:
  "py_float ''12.50'' = Inr (25 / 2)" "py_float ''3.20'' = Inr (16 / 5)"
  by (simp_all add: py_float_def isdigit_def code_def nat_of_digits_def digit_val_def)

section \<open>The date candidate\<close>

lemma lang_exact_length: "exact p \<Longrightarrow> lang p m \<Longrightarrow> length m = lo_sum p"
proof (induction p arbitrary: m)
  case Nil
  then show ?case by simp
next
  case (Cons it p)
  obtain cls lo hi where it: "it = Rep cls lo hi" by (cases it)
  with Cons.prems have hi: "hi = Some lo" and ex: "exact p" by auto
  from Cons.prems(2) it obtain k where k: "lo \<le> k" "k \<le> length m" "below k hi" "lang p (drop k m)"
    by (auto elim: lang_RepE)
  from k(1,3) hi have "k = lo" by simp
  moreover from Cons.IH[OF ex k(4)] have "length m - k = lo_sum p" by simp
  ultimately show ?case using k(2) it by simp
qed

lemma first_match_None: "first_match ps s = None \<longleftrightarrow> (\<forall>p \<in> set ps. re_search p s = None)"
  by (induction ps) (auto split: option.splits)

lemma first_match_Some:
  "first_match ps s = Some m \<longleftrightarrow>
   (\<exists>n < length ps. (\<forall>k < n. re_search (ps ! k) s = None) \<and> re_search (ps ! n) s = Some m)"
proof (induction ps)
  case Nil
  then show ?case by simp
next
  case (Cons p ps)
  show ?case
  proof (cases "re_search p s")
    case None
    have "(\<exists>n < length (p # ps). (\<forall>k < n. re_search ((p # ps) ! k) s = None)
             \<and> re_search ((p # ps) ! n) s = Some m)
        \<longleftrightarrow> (\<exists>n < length ps. (\<forall>k < n. re_search (ps ! k) s = None) \<and> re_search (ps ! n) s = Some m)"
      (is "?L \<longleftrightarrow> ?R")
    proof
      assume ?L
      then obtain n where n: "n < length (p # ps)" "\<forall>k < n. re_search ((p # ps) ! k) s = None"
        "re_search ((p # ps) ! n) s = Some m" by blast
      with None obtain n' where n': "n = Suc n'" by (cases n) auto
      have "\<forall>k < n'. re_search (ps ! k) s = None"
      proof (intro allI impI)
        fix k assume "k < n'"
        then have "Suc k < n" using n' by simp
        with n(2) have "re_search ((p # ps) ! Suc k) s = None" by blast
        then show "re_search (ps ! k) s = None" by simp
      qed
      with n(1,3) n' show ?R by auto
    next
      assume ?R
      then obtain n where n: "n < length ps" "\<forall>k < n. re_search (ps ! k) s = None"
        "re_search (ps ! n) s = Some m" by blast
      have "\<forall>k < Suc n. re_search ((p # ps) ! k) s = None"
      proof (intro allI impI)
        fix k assume "k < Suc n"
        then show "re_search ((p # ps) ! k) s = None" using None n(2) by (cases k) auto
      qed
      moreover have "Suc n < length (p # ps)" using n(1) by simp
      moreover have "re_search ((p # ps) ! Suc n) s = Some m" using n(3) by simp
      ultimately show ?L by blast
    qed
    with None Cons.IH show ?thesis by simp
  next
    case (Some a)
    have "(\<exists>n < length (p # ps). (\<forall>k < n. re_search ((p # ps) ! k) s = None)
             \<and> re_search ((p # ps) ! n) s = Some m) \<longleftrightarrow> a = m"
    proof
      assume "\<exists>n < length (p # ps). (\<forall>k < n. re_search ((p # ps) ! k) s = None)
             \<and> re_search ((p # ps) ! n) s = Some m"
      then obtain n where n: "\<forall>k < n. re_search ((p # ps) ! k) s = None"
        "re_search ((p # ps) ! n) s = Some m" by blast
      show "a = m"
      proof (cases n)
        case 0
        with n(2) Some show ?thesis by simp
      next
        case (Suc n')
        with n(1) have "re_search ((p # ps) ! 0) s = None" by blast
        with Some show ?thesis by simp
      qed
    next
      assume "a = m"
      with Some have "re_search ((p # ps) ! 0) s = Some m" by simp
      then show "\<exists>n < length (p # ps). (\<forall>k < n. re_search ((p # ps) ! k) s = None)
             \<and> re_search ((p # ps) ! n) s = Some m"
        by (intro exI[of _ 0]) simp
    qed
    with Some show ?thesis by simp
  qed
qed

lemma iso_sample_match: "match_here iso_pattern (''2024-01-05'' @ post) = Some post"
  unfolding iso_pattern_def lit_def
  by (simp add: greedy_def isdigit_def code_def upt_rec)

lemma exact_iso: "exact iso_pattern" "lo_sum iso_pattern = 10"
  by (simp_all add: iso_pattern_def lit_def)

lemma date_found_iso_first:
  assumes "s = pre @ ''2024-01-05'' @ post"
    and "\<forall>j < length pre. \<not> occurs_at (lang iso_pattern) s j"
  shows "date_found s = Some ''2024-01-05''"
proof -
  have lp: "length pre \<le> length s" using assms(1) by simp
  have dp: "drop (length pre) s = ''2024-01-05'' @ post" using assms(1) by simp
  have o: "occurs_at (lang iso_pattern) s (length pre)"
    using occurs_at_iff[OF lp, of iso_pattern] iso_sample_match[of post] dp by simp
  then have "re_search iso_pattern s \<noteq> None" using re_search_None[of iso_pattern s] lp by blast
  then obtain m where m: "re_search iso_pattern s = Some m" by auto
  from re_search_Some[OF m] obtain i where i: "occurs_at (lang iso_pattern) s i"
    "\<forall>j < i. \<not> occurs_at (lang iso_pattern) s j" "lang iso_pattern m"
    "take (length m) (drop i s) = m" by blast
  have "i = length pre" using i(1,2) o assms(2) by (metis linorder_neqE_nat)
  moreover have "length m = 10" using lang_exact_length[OF exact_iso(1) i(3)] exact_iso(2) by simp
  ultimately have "m = take 10 (''2024-01-05'' @ post)" using i(4) dp by simp
  then have "m = ''2024-01-05''" by simp
  with m show ?thesis by (simp add: date_found_def date_patterns_def)
qed

lemma date_found_iso_wins:
  assumes "substring ''2024-01-05'' s"
  shows "\<exists>m. date_found s = Some m \<and> lang iso_pattern m"
proof -
  from assms obtain pre post where s: "s = pre @ ''2024-01-05'' @ post"
    by (auto simp: substring_def)
  have lp: "length pre \<le> length s" using s by simp
  have dp: "drop (length pre) s = ''2024-01-05'' @ post" using s by simp
  have "occurs_at (lang iso_pattern) s (length pre)"
    using occurs_at_iff[OF lp, of iso_pattern] iso_sample_match[of post] dp by simp
  then have "re_search iso_pattern s \<noteq> None" using re_search_None[of iso_pattern s] lp by blast
  then obtain m where m: "re_search iso_pattern s = Some m" by auto
  from re_search_Some[OF m] have "lang iso_pattern m" by blast
  with m show ?thesis by (simp add: date_found_def date_patterns_def)
qed

lemma sample_no_iso_before:
  "list_all (\<lambda>j. match_here iso_pattern (drop j ''01/05/2024 2024-01-05'') = None) [0 ..< 11]"
  by code_simp

section \<open>The date field and the vendor are well formed\<close>

lemma lang_pos_nonempty: "0 < lo \<Longrightarrow> lang (Rep cls lo hi # p) m \<Longrightarrow> m \<noteq> []"
  by auto

lemma date_pattern_nonempty: "p \<in> set date_patterns \<Longrightarrow> lang p m \<Longrightarrow> m \<noteq> []"
  unfolding date_patterns_def iso_pattern_def slash_pattern_def hyphen_pattern_def
    month_pattern_def
  by (auto simp del: lang.simps dest!: lang_pos_nonempty[rotated])

lemma date_found_nonempty: "date_found s = Some m \<Longrightarrow> m \<noteq> []"
proof -
  assume "date_found s = Some m"
  then obtain n where n: "n < length date_patterns" "re_search (date_patterns ! n) s = Some m"
    unfolding date_found_def first_match_Some by blast
  from re_search_Some[OF n(2)] have "lang (date_patterns ! n) m" by blast
  moreover have "date_patterns ! n \<in> set date_patterns" using n(1) by simp
  ultimately show ?thesis by (rule date_pattern_nonempty[rotated])
qed

lemma date_parsed_cases:
  "date_parsed now to_dt (date_found s) =
     (case date_found s of
        None \<Rightarrow> strftime now
      | Some m \<Rightarrow>
          (case to_dt m of
             Inr (Timestamp d) \<Rightarrow>
               (if 1 \<le> year d \<and> year d \<le> 9999 then strftime d else strftime now)
           | Inr NaT \<Rightarrow> strftime now
           | Inl e \<Rightarrow> strftime now))"
  using date_found_nonempty[of s]
  by (auto simp: date_parsed_def ts_strftime_def split: option.splits sum.splits timestamp.splits)

lemma date_parsed_valid:
  assumes "valid_date now" and "\<forall>s d. to_dt s = Inr (Timestamp d) \<longrightarrow> valid_date d"
  shows "iso_date_string (date_parsed now to_dt found)"
  using assms strftime_valid
  by (auto simp: date_parsed_def ts_strftime_def split: option.splits sum.splits timestamp.splits)

lemma vendor_loop_nonempty: "vendor_loop ls \<noteq> []"
proof (induction ls)
  case Nil
  then show ?case by simp
next
  case (Cons l ls)
  have "w \<noteq> []" if "split_ws (strip l) = w # ws" for w ws
    using that words_acc_nonempty[of w "[]" "strip l"] by (simp add: split_ws_def)
  with Cons show ?case by (auto simp: Let_def split: list.splits)
qed

section \<open>The body of the export\<close>

lemma export_try_service_error: "export_try (Inl e) expense_data spreadsheet_id = Inl e"
  by (simp add: export_try_def)

lemma export_try_missing:
  assumes "k \<in> {''date'', ''amount'', ''vendor'', ''category''}" and "expense_data k = None"
  shows "\<exists>e. export_try get_service expense_data spreadsheet_id = Inl e"
proof (cases get_service)
  case (Inl e)
  then show ?thesis by (simp add: export_try_def)
next
  case (Inr service)
  from assms consider "expense_data ''date'' = None" | "expense_data ''amount'' = None"
    | "expense_data ''vendor'' = None" | "expense_data ''category'' = None" by auto
  then show ?thesis
    by cases (simp_all add: export_try_def getitem_def Inr split: option.splits sum.splits)
qed

lemma export_try_request:
  assumes "get_service = Inr service" "expense_data ''date'' = Some d"
    "expense_data ''amount'' = Some a" "expense_data ''vendor'' = Some v"
    "expense_data ''category'' = Some c"
  shows "export_try get_service expense_data spreadsheet_id =
    (case service \<lparr>spreadsheetId = spreadsheet_id, range_name = ''Sheet1'',
                     valueInputOption = ''USER_ENTERED'', insertDataOption = ''INSERT_ROWS'',
                     body_values = [[d, a, v, c]]\<rparr> of
       Inl e \<Rightarrow> Inl e
     | Inr u \<Rightarrow> Inr \<lparr>spreadsheetId = spreadsheet_id, range_name = ''Sheet1'',
                     valueInputOption = ''USER_ENTERED'', insertDataOption = ''INSERT_ROWS'',
                     body_values = [[d, a, v, c]]\<rparr>)"
  using assms by (simp add: export_try_def getitem_def Let_def)

lemma sample_expense_keys:
  "sample_expense ''date'' = Some (Str ''2024-01-05'')"
  "sample_expense ''amount'' = Some (Float 45)"
  "sample_expense ''vendor'' = Some (Str ''Joe's'')"
  "sample_expense ''category'' = Some (Str ''food'')"
  by (simp_all add: sample_expense_def as_dict_def)

section \<open>A date before the year 1000\<close>

lemma parse_never_fails:
  "\<exists>r. parse_expense_data now to_dt text = Inr r
      \<and> 0 \<le> amount r \<and> vendor r \<noteq> [] \<and> description r = take 200 (strip text)
      \<and> (valid_date now \<and> (\<forall>s d. to_dt s = Inr (Timestamp d) \<longrightarrow> valid_date d)
           \<longrightarrow> iso_date_string (date r))"
proof -
  from parse_expense_data_returns[of "text" now to_dt]
  obtain vs where vs: "\<forall>v \<in> set vs. 0 \<le> v"
    and r: "parse_expense_data now to_dt text =
         Inr \<lparr>amount = (if vs = [] then 0 else Max (set vs)),
              date = date_parsed now to_dt (date_found text),
              vendor = vendor_loop (split_on (CHR 0x0A) (strip text)),
              description = take 200 (strip text)\<rparr>"
    by blast
  have "0 \<le> (if vs = [] then 0 else Max (set vs))"
  proof (cases vs)
    case Nil
    then show ?thesis by simp
  next
    case (Cons v vs')
    then have "v \<in> set vs" by simp
    then have "v \<le> Max (set vs)" by (intro Max_ge) auto
    moreover have "0 \<le> v" using vs \<open>v \<in> set vs\<close> by blast
    ultimately have "0 \<le> Max (set vs)" by linarith
    moreover have "vs \<noteq> []" using Cons by simp
    ultimately show ?thesis by simp
  qed
  with r date_parsed_valid[of now to_dt "date_found text"] vendor_loop_nonempty
  show ?thesis by simp
qed

lemma date_field_cases:
  "\<exists>r. parse_expense_data now to_dt text = Inr r
      \<and> date r =
          (case date_found text of
             None \<Rightarrow> strftime now
           | Some m \<Rightarrow>
               (case to_dt m of
                  Inr (Timestamp d) \<Rightarrow>
                    (if 1 \<le> year d \<and> year d \<le> 9999 then strftime d else strftime now)
                | Inr NaT \<Rightarrow> strftime now
                | Inl e \<Rightarrow> strftime now))"
  using parse_expense_data_returns[of "text" now to_dt] date_parsed_cases[of now to_dt "text"]
  by auto










section \<open>Properties of the categorizer\<close>

text \<open>
  C5: \<open>categorize_expense\<close> lower-cases the vendor, a space and the description, and
  returns the first category, in the order food, transportation, shopping, utilities,
  entertainment, healthcare, other, one of whose keywords is a substring of that text;
  when no keyword of any category is a substring, it returns \<open>other\<close>.  A text with both
  \<open>pizza\<close> and \<open>uber\<close> in it is categorized \<open>food\<close>.
\<close>

theorem categorize_expense_first_hit:
  "(let t = lower (v @ '' '' @ d) in
     map fst EXPENSE_CATEGORIES =
       [''food'', ''transportation'', ''shopping'', ''utilities'', ''entertainment'',
        ''healthcare'', ''other'']
     \<and> (\<forall>i < length EXPENSE_CATEGORIES.
          hit t (EXPENSE_CATEGORIES ! i) \<and> (\<forall>j < i. \<not> hit t (EXPENSE_CATEGORIES ! j))
          \<longrightarrow> categorize_expense v d = fst (EXPENSE_CATEGORIES ! i))
     \<and> ((\<forall>i < length EXPENSE_CATEGORIES. \<not> hit t (EXPENSE_CATEGORIES ! i))
          \<longrightarrow> categorize_expense v d = ''other'')
     \<and> (substring ''pizza'' t \<and> substring ''uber'' t \<longrightarrow> categorize_expense v d = ''food''))"
proof -
  let ?t = "lower (v @ '' '' @ d)"
  have 1: "map fst EXPENSE_CATEGORIES =
       [''food'', ''transportation'', ''shopping'', ''utilities'', ''entertainment'',
        ''healthcare'', ''other'']"
    by (simp add: EXPENSE_CATEGORIES_def)
  have 2: "\<forall>i < length EXPENSE_CATEGORIES.
          hit ?t (EXPENSE_CATEGORIES ! i) \<and> (\<forall>j < i. \<not> hit ?t (EXPENSE_CATEGORIES ! j))
          \<longrightarrow> categorize_expense v d = fst (EXPENSE_CATEGORIES ! i)"
    unfolding categorize_expense_def by (blast intro: categorize_loop_first)
  have 3: "(\<forall>i < length EXPENSE_CATEGORIES. \<not> hit ?t (EXPENSE_CATEGORIES ! i))
          \<longrightarrow> categorize_expense v d = ''other''"
    unfolding categorize_expense_def by (blast intro: categorize_loop_none)
  have 4: "substring ''pizza'' ?t \<and> substring ''uber'' ?t \<longrightarrow> categorize_expense v d = ''food''"
    unfolding categorize_expense_def EXPENSE_CATEGORIES_def by (simp add: contains_iff)
  from 1 2 3 4 show ?thesis unfolding Let_def by blast
qed

theorem categorize_expense_first_hit_witness:
  "substring ''pizza'' (lower (''Uber'' @ '' '' @ ''PIZZA place''))
   \<and> substring ''uber'' (lower (''Uber'' @ '' '' @ ''PIZZA place''))
   \<and> categorize_expense ''Uber'' ''PIZZA place'' = ''food''"
proof -
  have p: "substring ''pizza'' (lower (''Uber'' @ '' '' @ ''PIZZA place''))"
    unfolding contains_iff[symmetric] by code_simp
  have u: "substring ''uber'' (lower (''Uber'' @ '' '' @ ''PIZZA place''))"
    unfolding contains_iff[symmetric] by code_simp
  from categorize_expense_first_hit[of "''Uber''" "''PIZZA place''"]
  have "substring ''pizza'' (lower (''Uber'' @ '' '' @ ''PIZZA place''))
        \<and> substring ''uber'' (lower (''Uber'' @ '' '' @ ''PIZZA place''))
        \<longrightarrow> categorize_expense ''Uber'' ''PIZZA place'' = ''food''"
    unfolding Let_def by blast
  with p u show ?thesis by blast
qed

section \<open>Properties of the field extractor\<close>

text \<open>
  C10: on the empty string and on every string of whitespace only,
  \<open>parse_expense_data\<close> returns, without an error, the record of the defaults: amount
  0, vendor \<open>Unknown\<close>, the empty description, and the date of the clock formatted
  \<open>YYYY-MM-DD\<close>.
\<close>

theorem blank_text_defaults:
  "list_all isspace text \<Longrightarrow>
   parse_expense_data now to_dt text =
     Inr \<lparr>amount = 0, date = strftime now, vendor = ''Unknown'', description = ''''\<rparr>
   \<and> (valid_date now \<longrightarrow> iso_date_string (strftime now))"
  unfolding parse_expense_data_def
  by (simp add: amounts_blank date_found_blank strip_blank vendor_blank date_parsed_def
      strftime_valid)

theorem blank_text_defaults_witness:
  "list_all isspace [CHR '' '', CHR 0x09, CHR 0x0A, CHR '' '']
   \<and> valid_date \<lparr>year = 2024, month = 2, day = 29\<rparr>
   \<and> parse_expense_data \<lparr>year = 2024, month = 2, day = 29\<rparr> iso_only
        [CHR '' '', CHR 0x09, CHR 0x0A, CHR '' ''] =
       Inr \<lparr>amount = 0, date = ''2024-02-29'', vendor = ''Unknown'', description = ''''\<rparr>
   \<and> iso_date_string ''2024-02-29''
   \<and> parse_expense_data \<lparr>year = 2024, month = 2, day = 29\<rparr> iso_only [] =
       Inr \<lparr>amount = 0, date = ''2024-02-29'', vendor = ''Unknown'', description = ''''\<rparr>"
proof -
  have s: "list_all isspace [CHR '' '', CHR 0x09, CHR 0x0A, CHR '' '']"
    by (simp add: isspace_def code_def)
  have v: "valid_date \<lparr>year = 2024, month = 2, day = 29\<rparr>"
    by (simp add: valid_date_def days_in_month_def is_leap_def)
  have f: "strftime \<lparr>year = 2024, month = 2, day = 29\<rparr> = ''2024-02-29''"
    by (simp add: strftime_pad zero_pad_2 zero_pad_4 digit_chars)
  have e: "list_all isspace []" by simp
  from blank_text_defaults[OF s, of "\<lparr>year = 2024, month = 2, day = 29\<rparr>" iso_only]
    blank_text_defaults[OF e, of "\<lparr>year = 2024, month = 2, day = 29\<rparr>" iso_only]
    s v f show ?thesis by simp
qed

text \<open>
  C4: the vendor is the first whitespace-delimited word of the first line, walking the
  stripped lines of the stripped text from the top, that does not start with a number,
  is longer than 3 characters and contains neither \<open>receipt\<close> nor \<open>tax\<close> in any
  case; when no line survives, the vendor is \<open>Unknown\<close>.  For the lines
  \<open>$12.50\<close>, \<open>RECEIPT\<close>, \<open>Joe's Diner\<close>, \<open>Tax: 1.00\<close> the vendor is \<open>Joe's\<close>.
\<close>

theorem vendor_first_surviving_line:
  "(\<exists>r. parse_expense_data now to_dt text = Inr r
        \<and> vendor r =
            (case find survives (map strip (split_on (CHR 0x0A) (strip text))) of
               None \<Rightarrow> ''Unknown''
             | Some l \<Rightarrow> first_word l))
   \<and> (\<exists>r. parse_expense_data now to_dt
             (''$12.50'' @ [CHR 0x0A] @ ''RECEIPT'' @ [CHR 0x0A] @ ''Joe's Diner'' @ [CHR 0x0A]
              @ ''Tax: 1.00'') = Inr r
          \<and> vendor r = ''Joe's'')"
proof
  from parse_expense_data_returns[of "text" now to_dt]
  show "\<exists>r. parse_expense_data now to_dt text = Inr r
        \<and> vendor r =
            (case find survives (map strip (split_on (CHR 0x0A) (strip text))) of
               None \<Rightarrow> ''Unknown''
             | Some l \<Rightarrow> first_word l)"
    by (auto simp: vendor_loop_find)
next
  from parse_expense_data_returns[of "''$12.50'' @ [CHR 0x0A] @ ''RECEIPT'' @ [CHR 0x0A] @ ''Joe's Diner'' @ [CHR 0x0A]
              @ ''Tax: 1.00''" now to_dt]
  show "\<exists>r. parse_expense_data now to_dt
             (''$12.50'' @ [CHR 0x0A] @ ''RECEIPT'' @ [CHR 0x0A] @ ''Joe's Diner'' @ [CHR 0x0A]
              @ ''Tax: 1.00'') = Inr r
          \<and> vendor r = ''Joe's''"
    by (auto simp only: joes_vendor expense_data.simps)
qed

text \<open>
  C2: with every comma of the text replaced by a dot, the amount is the maximum of the
  values of the leftmost, non-overlapping substrings made of one or more digits, a decimal
  point and exactly two digits, and 0 when there is no such substring.  When \<open>45.00\<close>
  is one of them and none has a larger value, the amount is 45.
\<close>

theorem amount_is_maximum:
  "\<exists>r ms vs. parse_expense_data now to_dt text = Inr r
      \<and> scan amount_shape (replace CHR '','' CHR ''.'' text) ms
      \<and> (\<forall>ms'. scan amount_shape (replace CHR '','' CHR ''.'' text) ms' \<longrightarrow> ms' = ms)
      \<and> list_all2 (\<lambda>m v. py_float m = Inr v) ms vs
      \<and> amount r = (if ms = [] then 0 else Max (set vs))
      \<and> (''45.00'' \<in> set ms \<and> (\<forall>v \<in> set vs. v \<le> 45) \<longrightarrow> amount r = 45)"
proof -
  let ?t = "replace CHR '','' CHR ''.'' text"
  let ?ms = "findall amount_pattern ?t"
  from parse_expense_data_returns[of "text" now to_dt]
  obtain vs where vs: "list_all2 (\<lambda>m v. py_float m = Inr v) ?ms vs"
    and r: "parse_expense_data now to_dt text =
         Inr \<lparr>amount = (if vs = [] then 0 else Max (set vs)),
              date = date_parsed now to_dt (date_found text),
              vendor = vendor_loop (split_on (CHR 0x0A) (strip text)),
              description = take 200 (strip text)\<rparr>"
    by blast
  let ?r = "\<lparr>amount = (if vs = [] then 0 else Max (set vs)),
              date = date_parsed now to_dt (date_found text),
              vendor = vendor_loop (split_on (CHR 0x0A) (strip text)),
              description = take 200 (strip text)\<rparr>"
  have len: "length ?ms = length vs" using vs by (rule list_all2_lengthD)
  then have e: "(?ms = []) = (vs = [])" by auto
  have a: "amount ?r = (if ?ms = [] then 0 else Max (set vs))" using e by simp
  have u: "\<forall>ms'. scan amount_shape ?t ms' \<longrightarrow> ms' = ?ms" using scan_amount_unique by blast
  have x: "''45.00'' \<in> set ?ms \<and> (\<forall>v \<in> set vs. v \<le> 45) \<longrightarrow> amount ?r = 45"
  proof
    assume h: "''45.00'' \<in> set ?ms \<and> (\<forall>v \<in> set vs. v \<le> 45)"
    then have m: "45 \<in> set vs" using list_all2_float_mem[OF vs _ py_float_45] by blast
    then have "Max (set vs) = 45" using h by (intro Max_eqI) auto
    moreover have "vs \<noteq> []" using m by auto
    ultimately show "amount ?r = 45" by simp
  qed
  from r findall_amount_scan[of ?t] u vs a x show ?thesis by blast
qed

theorem amount_is_maximum_witness:
  "\<exists>r. parse_expense_data \<lparr>year = 2024, month = 2, day = 29\<rparr> iso_only ''12,50 45.00 3.20'' = Inr r
      \<and> amount r = 45"
proof -
  let ?t = "replace CHR '','' CHR ''.'' ''12,50 45.00 3.20''"
  from amount_is_maximum[of "\<lparr>year = 2024, month = 2, day = 29\<rparr>" iso_only "''12,50 45.00 3.20''"]
  obtain r ms vs where r: "parse_expense_data \<lparr>year = 2024, month = 2, day = 29\<rparr> iso_only ''12,50 45.00 3.20'' = Inr r"
    and s: "scan amount_shape ?t ms"
    and u: "\<forall>ms'. scan amount_shape ?t ms' \<longrightarrow> ms' = ms"
    and l: "list_all2 (\<lambda>m v. py_float m = Inr v) ms vs"
    and x: "''45.00'' \<in> set ms \<and> (\<forall>v \<in> set vs. v \<le> 45) \<longrightarrow> amount r = 45"
    by blast
  have "findall amount_pattern ?t = ms" using u findall_amount_scan[of ?t] by blast
  then have ms: "ms = [''12.50'', ''45.00'', ''3.20'']" using sample_findall by simp
  with l have "vs = [25 / 2, 45, 16 / 5]"
    by (auto simp: list_all2_Cons1 sample_floats py_float_45)
  with ms x have "amount r = 45" by simp
  with r show ?thesis by blast
qed

text \<open>
  C3: the candidate date is found by trying the four date patterns in the order ISO,
  slash-separated, hyphen-separated, month name: it is a match of the first pattern that
  occurs anywhere in the text, at the leftmost position where that pattern occurs, and no
  later pattern is consulted; there is no candidate exactly when no pattern occurs anywhere.
  A text in which \<open>2024-01-05\<close> is the first ISO-shaped substring has that candidate,
  and a text with both \<open>2024-01-05\<close> and \<open>01/05/2024\<close> in it has an ISO-shaped one.
\<close>

theorem date_found_priority:
  "date_patterns = [iso_pattern, slash_pattern, hyphen_pattern, month_pattern]
   \<and> (date_found text = None \<longleftrightarrow>
        (\<forall>n < length date_patterns. \<forall>i \<le> length text.
            \<not> occurs_at (lang (date_patterns ! n)) text i))
   \<and> (\<forall>m. date_found text = Some m \<longrightarrow>
        (\<exists>n < length date_patterns.
            (\<forall>k < n. \<forall>i \<le> length text. \<not> occurs_at (lang (date_patterns ! k)) text i)
          \<and> (\<exists>i \<le> length text. occurs_at (lang (date_patterns ! n)) text i
               \<and> (\<forall>j < i. \<not> occurs_at (lang (date_patterns ! n)) text j)
               \<and> lang (date_patterns ! n) m \<and> take (length m) (drop i text) = m)))
   \<and> (\<forall>pre post. text = pre @ ''2024-01-05'' @ post
          \<and> (\<forall>j < length pre. \<not> occurs_at (lang iso_pattern) text j)
        \<longrightarrow> date_found text = Some ''2024-01-05'')
   \<and> (substring ''2024-01-05'' text \<and> substring ''01/05/2024'' text
        \<longrightarrow> (\<exists>m. date_found text = Some m \<and> lang iso_pattern m))"
proof (intro conjI)
  show "date_patterns = [iso_pattern, slash_pattern, hyphen_pattern, month_pattern]"
    by (simp add: date_patterns_def)
next
  have "date_found text = None \<longleftrightarrow> (\<forall>n < length date_patterns. re_search (date_patterns ! n) text = None)"
    unfolding date_found_def first_match_None by (metis in_set_conv_nth)
  then show "date_found text = None \<longleftrightarrow>
        (\<forall>n < length date_patterns. \<forall>i \<le> length text.
            \<not> occurs_at (lang (date_patterns ! n)) text i)"
    by (simp only: re_search_None)
next
  show "\<forall>m. date_found text = Some m \<longrightarrow>
        (\<exists>n < length date_patterns.
            (\<forall>k < n. \<forall>i \<le> length text. \<not> occurs_at (lang (date_patterns ! k)) text i)
          \<and> (\<exists>i \<le> length text. occurs_at (lang (date_patterns ! n)) text i
               \<and> (\<forall>j < i. \<not> occurs_at (lang (date_patterns ! n)) text j)
               \<and> lang (date_patterns ! n) m \<and> take (length m) (drop i text) = m))"
  proof (intro allI impI)
    fix m assume "date_found text = Some m"
    then obtain n where n: "n < length date_patterns"
      "\<forall>k < n. re_search (date_patterns ! k) text = None"
      "re_search (date_patterns ! n) text = Some m"
      unfolding date_found_def first_match_Some by blast
    from n(2) have "\<forall>k < n. \<forall>i \<le> length text. \<not> occurs_at (lang (date_patterns ! k)) text i"
      by (simp only: re_search_None)
    with n(1) re_search_Some[OF n(3)]
    show "\<exists>n < length date_patterns.
            (\<forall>k < n. \<forall>i \<le> length text. \<not> occurs_at (lang (date_patterns ! k)) text i)
          \<and> (\<exists>i \<le> length text. occurs_at (lang (date_patterns ! n)) text i
               \<and> (\<forall>j < i. \<not> occurs_at (lang (date_patterns ! n)) text j)
               \<and> lang (date_patterns ! n) m \<and> take (length m) (drop i text) = m)"
      by blast
  qed
next
  show "\<forall>pre post. text = pre @ ''2024-01-05'' @ post
          \<and> (\<forall>j < length pre. \<not> occurs_at (lang iso_pattern) text j)
        \<longrightarrow> date_found text = Some ''2024-01-05''"
    using date_found_iso_first by blast
next
  show "substring ''2024-01-05'' text \<and> substring ''01/05/2024'' text
        \<longrightarrow> (\<exists>m. date_found text = Some m \<and> lang iso_pattern m)"
    using date_found_iso_wins by blast
qed

theorem date_found_priority_witness:
  "date_found ''01/05/2024 2024-01-05'' = Some ''2024-01-05''
   \<and> date_found ''2024-01-05 01/05/2024'' = Some ''2024-01-05''"
proof -
  let ?t = "''01/05/2024 2024-01-05''"
  have "\<forall>j < 11. match_here iso_pattern (drop j ?t) = None"
    using sample_no_iso_before by (simp add: list_all_iff)
  then have h: "\<forall>j < length ''01/05/2024 ''. \<not> occurs_at (lang iso_pattern) ?t j"
    using occurs_at_iff[of _ ?t iso_pattern] by simp
  have e: "?t = ''01/05/2024 '' @ ''2024-01-05'' @ []" by simp
  from date_found_priority[of ?t] e h
  have 1: "date_found ?t = Some ''2024-01-05''" by blast
  let ?u = "''2024-01-05 01/05/2024''"
  have e': "?u = [] @ ''2024-01-05'' @ '' 01/05/2024''" by simp
  have h': "\<forall>j < length ([]::string). \<not> occurs_at (lang iso_pattern) ?u j" by simp
  from date_found_priority[of ?u] e' h'
  have 2: "date_found ?u = Some ''2024-01-05''" by blast
  from 1 2 show ?thesis ..
qed



text \<open>
  C8: with the clock held fixed, two calls of \<open>parse_expense_data\<close> on the same text
  give the same record, and two calls of \<open>categorize_expense\<close> on the same vendor and
  description give the same label.  The clock reaches the record only through the date,
  and only as the fallback: under two clocks the amount, the vendor and the description
  agree, and the dates agree or are the two clocks' dates.
\<close>

theorem extraction_deterministic:
  "(now1 = now2 \<and> text1 = text2
      \<longrightarrow> parse_expense_data now1 to_dt text1 = parse_expense_data now2 to_dt text2)
   \<and> (v1 = v2 \<and> d1 = d2 \<longrightarrow> categorize_expense v1 d1 = categorize_expense v2 d2)
   \<and> (\<exists>r1 r2. parse_expense_data now1 to_dt text1 = Inr r1
          \<and> parse_expense_data now2 to_dt text1 = Inr r2
          \<and> amount r1 = amount r2 \<and> vendor r1 = vendor r2 \<and> description r1 = description r2
          \<and> (date r1 = date r2 \<or> (date r1 = strftime now1 \<and> date r2 = strftime now2)))"
proof (intro conjI)
  show "now1 = now2 \<and> text1 = text2
      \<longrightarrow> parse_expense_data now1 to_dt text1 = parse_expense_data now2 to_dt text2"
    by simp
  show "v1 = v2 \<and> d1 = d2 \<longrightarrow> categorize_expense v1 d1 = categorize_expense v2 d2"
    by simp
  have d: "date_parsed now1 to_dt f = date_parsed now2 to_dt f
      \<or> (date_parsed now1 to_dt f = strftime now1 \<and> date_parsed now2 to_dt f = strftime now2)" for f
    by (auto simp: date_parsed_def split: option.splits sum.splits)
  from parse_expense_data_returns[of text1 now1 to_dt]
  obtain vs where vs: "float_all (findall amount_pattern (replace CHR '','' CHR ''.'' text1)) = Inr vs"
    and r1: "parse_expense_data now1 to_dt text1 =
         Inr \<lparr>amount = (if vs = [] then 0 else Max (set vs)),
              date = date_parsed now1 to_dt (date_found text1),
              vendor = vendor_loop (split_on (CHR 0x0A) (strip text1)),
              description = take 200 (strip text1)\<rparr>"
    by blast
  from parse_expense_data_returns[of text1 now2 to_dt] vs
  have r2: "parse_expense_data now2 to_dt text1 =
         Inr \<lparr>amount = (if vs = [] then 0 else Max (set vs)),
              date = date_parsed now2 to_dt (date_found text1),
              vendor = vendor_loop (split_on (CHR 0x0A) (strip text1)),
              description = take 200 (strip text1)\<rparr>"
    by auto
  show "\<exists>r1 r2. parse_expense_data now1 to_dt text1 = Inr r1
          \<and> parse_expense_data now2 to_dt text1 = Inr r2
          \<and> amount r1 = amount r2 \<and> vendor r1 = vendor r2 \<and> description r1 = description r2
          \<and> (date r1 = date r2 \<or> (date r1 = strftime now1 \<and> date r2 = strftime now2))"
    unfolding r1 r2 using d[of "date_found text1"] by simp
qed

theorem extraction_deterministic_witness:
  "parse_expense_data \<lparr>year = 2024, month = 2, day = 29\<rparr> iso_only ''Cafe 2024-01-05 4.50''
     = parse_expense_data \<lparr>year = 2024, month = 2, day = 29\<rparr> iso_only ''Cafe 2024-01-05 4.50''
   \<and> categorize_expense ''Cafe'' ''Cafe 2024-01-05 4.50''
     = categorize_expense ''Cafe'' ''Cafe 2024-01-05 4.50''
   \<and> (\<exists>r1 r2. parse_expense_data \<lparr>year = 2024, month = 2, day = 29\<rparr> iso_only
                  ''Cafe 2024-01-05 4.50'' = Inr r1
          \<and> parse_expense_data \<lparr>year = 2025, month = 3, day = 1\<rparr> iso_only
                  ''Cafe 2024-01-05 4.50'' = Inr r2
          \<and> amount r1 = amount r2 \<and> vendor r1 = vendor r2 \<and> description r1 = description r2)"
  using extraction_deterministic[of "\<lparr>year = 2024, month = 2, day = 29\<rparr>"
      "\<lparr>year = 2024, month = 2, day = 29\<rparr>" "''Cafe 2024-01-05 4.50''" "''Cafe 2024-01-05 4.50''"
      iso_only "''Cafe''" "''Cafe''" "''Cafe 2024-01-05 4.50''" "''Cafe 2024-01-05 4.50''"]
    extraction_deterministic[of "\<lparr>year = 2024, month = 2, day = 29\<rparr>"
      "\<lparr>year = 2025, month = 3, day = 1\<rparr>" "''Cafe 2024-01-05 4.50''" "''Cafe 2024-01-05 4.50''"
      iso_only "''Cafe''" "''Cafe''" "''Cafe 2024-01-05 4.50''" "''Cafe 2024-01-05 4.50''"]
  by blast

section \<open>Properties of the upload block and the export\<close>

text \<open>
  C7: when the OCR text is empty or whitespace only, the upload block creates no record:
  its only event is the warning, so \<open>parse_expense_data\<close> and
  \<open>categorize_expense\<close> are not called and no row is inserted.  On any other text
  both are called and a row is inserted.
\<close>

theorem blank_upload_skipped:
  "(strip raw_text = [] \<longleftrightarrow> list_all isspace raw_text)
   \<and> (list_all isspace raw_text \<longrightarrow>
        process_upload now to_dt clicked get_service raw_text filename =
          Inr [St_warning ''No text detected. Try a clearer image or PDF.''])
   \<and> (\<not> list_all isspace raw_text \<longrightarrow>
        (\<exists>r evs. parse_expense_data now to_dt raw_text = Inr r
           \<and> process_upload now to_dt clicked get_service raw_text filename =
               Inr (Call_parse_expense_data raw_text
                    # Call_categorize_expense (vendor r) (description r)
                    # Db_insert \<lparr>row_date = date r, row_amount = amount r, row_vendor = vendor r,
                                 row_category = categorize_expense (vendor r) (description r),
                                 row_raw_text = raw_text, row_filename = filename\<rparr>
                    # evs)))"
proof (intro conjI impI)
  show "strip raw_text = [] \<longleftrightarrow> list_all isspace raw_text" by (rule strip_empty_iff)
next
  assume "list_all isspace raw_text"
  then show "process_upload now to_dt clicked get_service raw_text filename =
          Inr [St_warning ''No text detected. Try a clearer image or PDF.'']"
    by (simp add: process_upload_def strip_blank)
next
  assume "\<not> list_all isspace raw_text"
  then have n: "strip raw_text \<noteq> []" by (simp add: strip_empty_iff)
  from parse_expense_data_returns[of raw_text now to_dt]
  obtain r where r: "parse_expense_data now to_dt raw_text = Inr r" by blast
  show "\<exists>r evs. parse_expense_data now to_dt raw_text = Inr r
           \<and> process_upload now to_dt clicked get_service raw_text filename =
               Inr (Call_parse_expense_data raw_text
                    # Call_categorize_expense (vendor r) (description r)
                    # Db_insert \<lparr>row_date = date r, row_amount = amount r, row_vendor = vendor r,
                                 row_category = categorize_expense (vendor r) (description r),
                                 row_raw_text = raw_text, row_filename = filename\<rparr>
                    # evs)"
    using n r by (simp add: process_upload_def Let_def)
qed

theorem blank_upload_skipped_witness:
  "list_all isspace [CHR '' '', CHR 0x0A, CHR 0x09]
   \<and> process_upload \<lparr>year = 2024, month = 2, day = 29\<rparr> iso_only True (Inl (ServiceError ''down''))
        [CHR '' '', CHR 0x0A, CHR 0x09] ''receipt.png'' =
          Inr [St_warning ''No text detected. Try a clearer image or PDF.'']
   \<and> \<not> list_all isspace ''Cafe 4.50''
   \<and> (\<exists>r evs. parse_expense_data \<lparr>year = 2024, month = 2, day = 29\<rparr> iso_only ''Cafe 4.50'' = Inr r
           \<and> process_upload \<lparr>year = 2024, month = 2, day = 29\<rparr> iso_only False
                  (Inl (ServiceError ''down'')) ''Cafe 4.50'' ''receipt.png'' =
               Inr (Call_parse_expense_data ''Cafe 4.50''
                    # Call_categorize_expense (vendor r) (description r)
                    # Db_insert \<lparr>row_date = date r, row_amount = amount r, row_vendor = vendor r,
                                 row_category = categorize_expense (vendor r) (description r),
                                 row_raw_text = ''Cafe 4.50'', row_filename = ''receipt.png''\<rparr>
                    # evs))"
proof -
  have b: "list_all isspace [CHR '' '', CHR 0x0A, CHR 0x09]" by (simp add: isspace_def code_def)
  have n: "\<not> list_all isspace ''Cafe 4.50''" by (simp add: isspace_def code_def)
  note s = blank_upload_skipped[of "[CHR '' '', CHR 0x0A, CHR 0x09]"
      "\<lparr>year = 2024, month = 2, day = 29\<rparr>" iso_only True "Inl (ServiceError ''down'')"
      "''receipt.png''"]
  note t = blank_upload_skipped[of "''Cafe 4.50''"
      "\<lparr>year = 2024, month = 2, day = 29\<rparr>" iso_only False "Inl (ServiceError ''down'')"
      "''receipt.png''"]
  from b s[THEN conjunct2, THEN conjunct1, THEN mp, OF b] n
    t[THEN conjunct2, THEN conjunct2, THEN mp, OF n]
  show ?thesis by (intro conjI)
qed

text \<open>
  C9: for a dictionary with the keys \<open>date\<close>, \<open>amount\<close>, \<open>vendor\<close> and
  \<open>category\<close> and a spreadsheet id, \<open>export_to_google_sheets\<close> sends one append
  request to \<open>Sheet1\<close> whose body is the single row of the four values in that order,
  and returns \<open>True\<close> when the service and the request succeed.  When the service
  cannot be built, a key is missing or the request fails, it shows the error and returns
  \<open>False\<close>; it returns a truth value in every case, and \<open>False\<close> exactly when its
  \<open>try\<close> body raised.
\<close>

theorem export_returns_bool:
  "(\<forall>service d a v c.
       get_service = Inr service \<and> expense_data ''date'' = Some d
       \<and> expense_data ''amount'' = Some a \<and> expense_data ''vendor'' = Some v
       \<and> expense_data ''category'' = Some c
      \<longrightarrow> (service \<lparr>spreadsheetId = spreadsheet_id, range_name = ''Sheet1'',
                     valueInputOption = ''USER_ENTERED'', insertDataOption = ''INSERT_ROWS'',
                     body_values = [[d, a, v, c]]\<rparr> = Inr ()
            \<longrightarrow> export_to_google_sheets get_service expense_data spreadsheet_id =
                  (True, [Sheets_append \<lparr>spreadsheetId = spreadsheet_id, range_name = ''Sheet1'',
                     valueInputOption = ''USER_ENTERED'', insertDataOption = ''INSERT_ROWS'',
                     body_values = [[d, a, v, c]]\<rparr>]))
        \<and> (\<forall>e. service \<lparr>spreadsheetId = spreadsheet_id, range_name = ''Sheet1'',
                     valueInputOption = ''USER_ENTERED'', insertDataOption = ''INSERT_ROWS'',
                     body_values = [[d, a, v, c]]\<rparr> = Inl e
            \<longrightarrow> export_to_google_sheets get_service expense_data spreadsheet_id =
                  (False, [St_error (''Error exporting to Google Sheets: '' @ exc_str e)])))
   \<and> (\<forall>e. get_service = Inl e
        \<longrightarrow> export_to_google_sheets get_service expense_data spreadsheet_id =
              (False, [St_error (''Error exporting to Google Sheets: '' @ exc_str e)]))
   \<and> (\<forall>k \<in> {''date'', ''amount'', ''vendor'', ''category''}. expense_data k = None
        \<longrightarrow> fst (export_to_google_sheets get_service expense_data spreadsheet_id) = False)
   \<and> (fst (export_to_google_sheets get_service expense_data spreadsheet_id)
        \<longleftrightarrow> (\<exists>request. export_try get_service expense_data spreadsheet_id = Inr request))
   \<and> (\<not> fst (export_to_google_sheets get_service expense_data spreadsheet_id)
        \<longleftrightarrow> (\<exists>e. export_try get_service expense_data spreadsheet_id = Inl e))"
proof (intro conjI allI impI ballI)
  fix service d a v c
  assume h: "get_service = Inr service \<and> expense_data ''date'' = Some d
       \<and> expense_data ''amount'' = Some a \<and> expense_data ''vendor'' = Some v
       \<and> expense_data ''category'' = Some c"
  note r = export_try_request[of get_service service expense_data d a v c spreadsheet_id]
  let ?req = "\<lparr>spreadsheetId = spreadsheet_id, range_name = ''Sheet1'',
                     valueInputOption = ''USER_ENTERED'', insertDataOption = ''INSERT_ROWS'',
                     body_values = [[d, a, v, c]]\<rparr>"
  {
    assume "service ?req = Inr ()"
    with h r show "export_to_google_sheets get_service expense_data spreadsheet_id =
                  (True, [Sheets_append ?req])"
      by (simp add: export_to_google_sheets_def)
  }
  {
    fix e assume "service ?req = Inl e"
    with h r show "export_to_google_sheets get_service expense_data spreadsheet_id =
                  (False, [St_error (''Error exporting to Google Sheets: '' @ exc_str e)])"
      by (simp add: export_to_google_sheets_def)
  }
next
  fix e assume "get_service = Inl e"
  then show "export_to_google_sheets get_service expense_data spreadsheet_id =
              (False, [St_error (''Error exporting to Google Sheets: '' @ exc_str e)])"
    by (simp add: export_to_google_sheets_def export_try_service_error)
next
  fix k assume k: "k \<in> {''date'', ''amount'', ''vendor'', ''category''}" "expense_data k = None"
  from export_try_missing[of k expense_data get_service spreadsheet_id, OF k]
  show "fst (export_to_google_sheets get_service expense_data spreadsheet_id) = False"
    by (auto simp: export_to_google_sheets_def)
next
  show "fst (export_to_google_sheets get_service expense_data spreadsheet_id)
        \<longleftrightarrow> (\<exists>request. export_try get_service expense_data spreadsheet_id = Inr request)"
    by (simp add: export_to_google_sheets_def split: sum.splits)
next
  show "\<not> fst (export_to_google_sheets get_service expense_data spreadsheet_id)
        \<longleftrightarrow> (\<exists>e. export_try get_service expense_data spreadsheet_id = Inl e)"
    by (simp add: export_to_google_sheets_def split: sum.splits)
qed

theorem export_returns_bool_witness:
  "export_to_google_sheets (Inr (\<lambda>request. Inr ())) sample_expense ''sheet-id'' =
     (True, [Sheets_append \<lparr>spreadsheetId = ''sheet-id'', range_name = ''Sheet1'',
                valueInputOption = ''USER_ENTERED'', insertDataOption = ''INSERT_ROWS'',
                body_values = [[Str ''2024-01-05'', Float 45, Str ''Joe's'', Str ''food'']]\<rparr>])
   \<and> export_to_google_sheets (Inr (\<lambda>request. Inl (ServiceError ''quota''))) sample_expense
        ''sheet-id'' = (False, [St_error ''Error exporting to Google Sheets: quota''])
   \<and> export_to_google_sheets (Inl (ServiceError ''no token'')) sample_expense ''sheet-id'' =
        (False, [St_error ''Error exporting to Google Sheets: no token''])
   \<and> fst (export_to_google_sheets (Inr (\<lambda>request. Inr ())) Map.empty ''sheet-id'') = False"
proof -
  let ?ok = "\<lambda>request :: append_request. (Inr () :: py_error + unit)"
  let ?ko = "\<lambda>request :: append_request. (Inl (ServiceError ''quota'') :: py_error + unit)"
  have h1: "(Inr ?ok :: py_error + service) = Inr ?ok
      \<and> sample_expense ''date'' = Some (Str ''2024-01-05'')
      \<and> sample_expense ''amount'' = Some (Float 45)
      \<and> sample_expense ''vendor'' = Some (Str ''Joe's'')
      \<and> sample_expense ''category'' = Some (Str ''food'')"
    by (simp add: sample_expense_keys)
  have h2: "(Inr ?ko :: py_error + service) = Inr ?ko
      \<and> sample_expense ''date'' = Some (Str ''2024-01-05'')
      \<and> sample_expense ''amount'' = Some (Float 45)
      \<and> sample_expense ''vendor'' = Some (Str ''Joe's'')
      \<and> sample_expense ''category'' = Some (Str ''food'')"
    by (simp add: sample_expense_keys)
  note t1 = export_returns_bool[of "Inr ?ok" sample_expense "''sheet-id''"]
  note t2 = export_returns_bool[of "Inr ?ko" sample_expense "''sheet-id''"]
  note t3 = export_returns_bool[of "Inl (ServiceError ''no token'')" sample_expense "''sheet-id''"]
  note t4 = export_returns_bool[of "Inr ?ok" Map.empty "''sheet-id''"]
  from t1[THEN conjunct1, THEN spec, THEN spec, THEN spec, THEN spec, THEN spec, THEN mp, OF h1,
      THEN conjunct1]
  have 1: "export_to_google_sheets (Inr ?ok) sample_expense ''sheet-id'' =
     (True, [Sheets_append \<lparr>spreadsheetId = ''sheet-id'', range_name = ''Sheet1'',
                valueInputOption = ''USER_ENTERED'', insertDataOption = ''INSERT_ROWS'',
                body_values = [[Str ''2024-01-05'', Float 45, Str ''Joe's'', Str ''food'']]\<rparr>])"
    by simp
  from t2[THEN conjunct1, THEN spec, THEN spec, THEN spec, THEN spec, THEN spec, THEN mp, OF h2,
      THEN conjunct2, THEN spec, of "ServiceError ''quota''"]
  have 2: "export_to_google_sheets (Inr ?ko) sample_expense
        ''sheet-id'' = (False, [St_error ''Error exporting to Google Sheets: quota''])"
    by simp
  from t3[THEN conjunct2, THEN conjunct1, THEN spec, of "ServiceError ''no token''"]
  have 3: "export_to_google_sheets (Inl (ServiceError ''no token'')) sample_expense ''sheet-id'' =
        (False, [St_error ''Error exporting to Google Sheets: no token''])"
    by simp
  from t4[THEN conjunct2, THEN conjunct2, THEN conjunct1, THEN bspec, of "''date''"]
  have 4: "fst (export_to_google_sheets (Inr ?ok) Map.empty ''sheet-id'') = False"
    by simp
  from 1 2 3 4 show ?thesis by (intro conjI)
qed

end
